theory Spec2Isabelle
  imports Main "HOL-Library.AList"
begin

section \<open>JavaScript strings\<close>

text \<open>
  Strings are character lists. The identifiers this program handles are ASCII, and
  \<open>toLowerCase\<close> is modelled on the ASCII letters; every other character is kept.
\<close>

definition lower_char :: "char \<Rightarrow> char" where
  "lower_char c =
     (case map_of (zip ''ABCDEFGHIJKLMNOPQRSTUVWXYZ'' ''abcdefghijklmnopqrstuvwxyz'') c of
        None \<Rightarrow> c
      | Some d \<Rightarrow> d)"

definition toLowerCase :: "string \<Rightarrow> string" where
  "toLowerCase s = map lower_char s"

text \<open>The character class \<open>[0-9a-f]\<close>.\<close>

definition is_hex :: "char \<Rightarrow> bool" where
  "is_hex c = (c \<in> set ''0123456789abcdef'')"

text \<open>\<open>[0-9a-f]{n}\<close> at the start of the input: the rest of the input after the match.\<close>

fun match_hex :: "nat \<Rightarrow> string \<Rightarrow> string option" where
  "match_hex 0 s = Some s"
| "match_hex (Suc n) [] = None"
| "match_hex (Suc n) (c # cs) = (if is_hex c then match_hex n cs else None)"

text \<open>A literal \<open>-\<close> at the start of the input.\<close>

fun match_dash :: "string \<Rightarrow> string option" where
  "match_dash [] = None"
| "match_dash (c # cs) = (if c = CHR ''-'' then Some cs else None)"

text \<open>
  \<open>/^[0-9a-f]{8}-[0-9a-f]{4}-[0-9a-f]{4}-[0-9a-f]{4}-[0-9a-f]{12}$/.test(s)\<close>, the
  pattern of \<open>UUID_RE\<close> in background.js and of \<open>UUID_PATTERN\<close> in content.js. The
  pattern has no flag, so \<open>$\<close> is the end of the input.
\<close>

definition UUID_RE_test :: "string \<Rightarrow> bool" where
  "UUID_RE_test s =
     (case match_hex 8 s of None \<Rightarrow> False | Some s1 \<Rightarrow>
      case match_dash s1 of None \<Rightarrow> False | Some s2 \<Rightarrow>
      case match_hex 4 s2 of None \<Rightarrow> False | Some s3 \<Rightarrow>
      case match_dash s3 of None \<Rightarrow> False | Some s4 \<Rightarrow>
      case match_hex 4 s4 of None \<Rightarrow> False | Some s5 \<Rightarrow>
      case match_dash s5 of None \<Rightarrow> False | Some s6 \<Rightarrow>
      case match_hex 4 s6 of None \<Rightarrow> False | Some s7 \<Rightarrow>
      case match_dash s7 of None \<Rightarrow> False | Some s8 \<Rightarrow>
      case match_hex 12 s8 of None \<Rightarrow> False | Some s9 \<Rightarrow> s9 = [])"

text \<open>\<open>s.startsWith(p)\<close>.\<close>

fun startsWith :: "string \<Rightarrow> string \<Rightarrow> bool" where
  "startsWith s [] = True"
| "startsWith [] (p # ps) = False"
| "startsWith (c # cs) (p # ps) = (c = p \<and> startsWith cs ps)"

text \<open>
  \<open>s.substring(s.indexOf(p))\<close> when \<open>p\<close> occurs in \<open>s\<close> (the text from the first
  occurrence on), \<open>None\<close> when \<open>indexOf\<close> is -1.
\<close>

fun from_first :: "string \<Rightarrow> string \<Rightarrow> string option" where
  "from_first p [] = (if p = [] then Some [] else None)"
| "from_first p (c # cs) = (if startsWith (c # cs) p then Some (c # cs) else from_first p cs)"

definition str_includes :: "string \<Rightarrow> string \<Rightarrow> bool" where
  "str_includes s p = (from_first p s \<noteq> None)"

text \<open>\<open>s.split("/")\<close>: never empty, the empty string gives one empty segment.\<close>

fun split_slash :: "string \<Rightarrow> string list" where
  "split_slash [] = [[]]"
| "split_slash (c # cs) =
     (if c = CHR ''/'' then [] # split_slash cs
      else (case split_slash cs of [] \<Rightarrow> [[c]] | seg # segs \<Rightarrow> (c # seg) # segs))"

text \<open>
  \<open>s.replace(p, "")\<close> with a string pattern: the first occurrence of \<open>p\<close> is removed,
  and \<open>s\<close> is returned as it is when \<open>p\<close> does not occur.
\<close>

fun remove_first :: "string \<Rightarrow> string \<Rightarrow> string" where
  "remove_first p [] = []"
| "remove_first p (c # cs) =
     (if startsWith (c # cs) p then drop (length p) (c # cs) else c # remove_first p cs)"

text \<open>\<open>s.replace(/\/+$/, "")\<close>: the trailing slashes are removed.\<close>

definition strip_trailing_slashes :: "string \<Rightarrow> string" where
  "strip_trailing_slashes s = rev (dropWhile (\<lambda>c. c = CHR ''/'') (rev s))"

text \<open>\<open>parts.join(", ")\<close>.\<close>

fun join_comma :: "string list \<Rightarrow> string" where
  "join_comma [] = []"
| "join_comma [x] = x"
| "join_comma (x # y # ys) = x @ '', '' @ join_comma (y # ys)"

section \<open>content.js: the scanner\<close>

text \<open>
  A typed identifier \<open>{ uuid, type }\<close> and a resolved name \<open>{ type, fullName }\<close> are
  records that share the field \<open>type\<close>. An object or a \<open>Map\<close> keyed by strings is an
  association list in insertion order: \<open>AList.update\<close> overwrites an existing key in
  place and appends a new one, \<open>map_of\<close> reads a key.
\<close>

record typed =
  type :: string

record typed_uuid = typed +
  uuid :: string

definition typePriority :: "string \<Rightarrow> nat" where
  "typePriority t =
     (if t = ''table'' then 3
      else if t = ''schema'' then 2
      else if t = ''catalog'' then 1
      else 0)"

text \<open>\<open>uuid.replace(/[^0-9a-f-]/gi, "").toLowerCase()\<close>.\<close>

definition cleanUuid :: "string \<Rightarrow> string" where
  "cleanUuid s = toLowerCase (filter (\<lambda>c. is_hex (lower_char c) \<or> c = CHR ''-'') s)"

text \<open>
  The loop of \<open>parseUnityPath\<close>, \<open>for (i = 1; i < segments.length; i += 2)\<close>, on the
  segments from index 1 on: \<open>kind = segments[i]\<close>, \<open>uuid = segments[i + 1]\<close>. A pair is
  skipped when \<open>uuid\<close> is undefined or empty, when the cleaned token does not match
  \<open>UUID_PATTERN\<close>, and when \<open>kind\<close> is none of the three markers.
\<close>

fun parse_segments :: "string list \<Rightarrow> typed_uuid list" where
  "parse_segments (kind # u # rest) =
     (if u = [] then parse_segments rest
      else if \<not> UUID_RE_test (cleanUuid u) then parse_segments rest
      else if kind = ''tables'' then \<lparr>type = ''table'', uuid = cleanUuid u\<rparr> # parse_segments rest
      else if kind = ''schemas'' then \<lparr>type = ''schema'', uuid = cleanUuid u\<rparr> # parse_segments rest
      else if kind = ''catalogs'' then \<lparr>type = ''catalog'', uuid = cleanUuid u\<rparr> # parse_segments rest
      else parse_segments rest)"
| "parse_segments [kind] = []"
| "parse_segments [] = []"

text \<open>\<open>parseUnityPath(text)\<close>: \<open>None\<close> is the source's \<open>null\<close>.\<close>

definition parseUnityPath :: "string \<Rightarrow> typed_uuid list option" where
  "parseUnityPath txt =
     (case from_first ''__unitystorage/'' txt of
        None \<Rightarrow> None
      | Some pathPart \<Rightarrow>
          (let results = parse_segments (tl (split_slash pathPart))
           in if results \<noteq> [] then Some results else None))"

text \<open>
  A \<open>span.s3-util-word-break-all\<close> of the page: whether it carries the attribute
  \<open>data-s3-lens-annotated\<close>, and its \<open>textContent\<close>.
\<close>

record span =
  annotated :: bool
  textContent :: string

text \<open>
  The inner loop of \<open>findUnityElements\<close>, lines 81 to 87: the map keeps the more
  specific type of an identifier. \<open>!existing\<close> holds for an absent key and for the
  empty string.
\<close>

fun keep_types :: "typed_uuid list \<Rightarrow> (string \<times> string) list \<Rightarrow> (string \<times> string) list" where
  "keep_types [] typedUuids = typedUuids"
| "keep_types (p # parsed) typedUuids =
     keep_types parsed
       (case map_of typedUuids (uuid p) of
          None \<Rightarrow> AList.update (uuid p) (type p) typedUuids
        | Some existing \<Rightarrow>
            if existing = [] \<or> typePriority (type p) > typePriority existing
            then AList.update (uuid p) (type p) typedUuids
            else typedUuids)"

text \<open>
  \<open>findUnityElements()\<close> on the spans of the page, in document order: the elements kept
  (each with what was parsed from it) and the map \<open>typedUuids\<close>.
\<close>

fun scan_spans ::
  "span list \<Rightarrow> (span \<times> typed_uuid list) list \<times> (string \<times> string) list
     \<Rightarrow> (span \<times> typed_uuid list) list \<times> (string \<times> string) list" where
  "scan_spans [] acc = acc"
| "scan_spans (sp # spans) (elements, typedUuids) =
     (if annotated sp then scan_spans spans (elements, typedUuids)
      else if \<not> str_includes (textContent sp) ''__unitystorage''
        then scan_spans spans (elements, typedUuids)
      else (case parseUnityPath (textContent sp) of
              None \<Rightarrow> scan_spans spans (elements, typedUuids)
            | Some parsed \<Rightarrow>
                scan_spans spans (elements @ [(sp, parsed)], keep_types parsed typedUuids)))"

definition findUnityElements ::
  "span list \<Rightarrow> (span \<times> typed_uuid list) list \<times> (string \<times> string) list" where
  "findUnityElements spans = scan_spans spans ([], [])"

text \<open>
  What \<open>scan\<close> sends to the background:
  \<open>Array.from(typedUuids.entries()).map(([uuid, type]) => ({ uuid, type }))\<close>.
\<close>

definition uuidsWithTypes :: "span list \<Rightarrow> typed_uuid list" where
  "uuidsWithTypes spans =
     map (\<lambda>(u, t). \<lparr>type = t, uuid = u\<rparr>) (snd (findUnityElements spans))"

text \<open>
  Every occurrence the scanner parses from the page, in document order: what
  \<open>parseUnityPath\<close> gives for each span that is not annotated yet and mentions
  \<open>__unitystorage\<close>.
\<close>

definition parsed_of :: "span \<Rightarrow> typed_uuid list" where
  "parsed_of sp =
     (if annotated sp \<or> \<not> str_includes (textContent sp) ''__unitystorage'' then []
      else (case parseUnityPath (textContent sp) of None \<Rightarrow> [] | Some parsed \<Rightarrow> parsed))"

definition occurrences :: "span list \<Rightarrow> typed_uuid list" where
  "occurrences spans = concat (map parsed_of spans)"

text \<open>
  The invariant of the scanner's map against the occurrences met so far: an identifier
  is a key exactly when it has occurred, and its type is that of one of its occurrences
  and of no lower priority than any of them.
\<close>

definition most_specific :: "typed_uuid list \<Rightarrow> (string \<times> string) list \<Rightarrow> bool" where
  "most_specific occ m =
     (\<forall>u. case map_of m u of
        None \<Rightarrow> u \<notin> uuid ` set occ
      | Some t \<Rightarrow>
          (\<exists>x\<in>set occ. uuid x = u \<and> type x = t) \<and>
          (\<forall>x\<in>set occ. uuid x = u \<longrightarrow> typePriority (type x) \<le> typePriority t))"

text \<open>The page of the example: one identifier under a schema marker, then under a table marker.\<close>

definition example_page :: "span list" where
  "example_page =
     [\<lparr>annotated = False,
       textContent = ''s3://b/__unitystorage/schemas/01234567-89ab-cdef-0123-456789abcdef''\<rparr>,
      \<lparr>annotated = False,
       textContent = ''s3://b/__unitystorage/tables/01234567-89AB-cdef-0123-456789abcdef''\<rparr>,
      \<lparr>annotated = False,
       textContent = ''s3://b/__unitystorage/catalogs/01234567-89ab-cdef-0123-456789abcdef''\<rparr>]"

section \<open>background.js: values, storage and configuration\<close>

text \<open>
  The values a cell of a result row or a field of a response can hold, as far as the
  program tells them apart: \<open>undefined\<close>, \<open>null\<close> and strings.
\<close>

datatype jsval = JUndefined | JNull | JString string

text \<open>A value inside a template literal, \<open>`${v}`\<close>.\<close>

fun template :: "jsval \<Rightarrow> string" where
  "template JUndefined = ''undefined''"
| "template JNull = ''null''"
| "template (JString s) = s"

text \<open>A non-negative number inside a template literal: its decimal digits.\<close>

fun decimal :: "nat \<Rightarrow> string" where
  "decimal n =
     (if n < 10 then [''0123456789'' ! n]
      else decimal (n div 10) @ [''0123456789'' ! (n mod 10)])"

text \<open>
  Array destructuring \<open>const [a, b, c, d] = row\<close>: the cell at an index, \<open>undefined\<close>
  past the end of the row.
\<close>

definition cell :: "jsval list \<Rightarrow> nat \<Rightarrow> jsval" where
  "cell row i = (if i < length row then row ! i else JUndefined)"

record resolved_name = typed +
  fullName :: jsval

record cache_entry =
  data :: resolved_name
  cachedAt :: int

text \<open>
  \<open>chrome.storage.local\<close>: each key is absent (\<open>None\<close>) or holds a value. The cache
  object \<open>uuidCache\<close> is only read and written by key, so it is a map. Calls to the
  storage are taken to succeed.
\<close>

record storage =
  stored_workspaceUrl :: "string option"
  stored_warehouseId :: "string option"
  stored_patToken :: "string option"
  stored_uuidCache :: "(string \<rightharpoonup> cache_entry) option"
  stored_cacheUpdatedAt :: "int option"

record config =
  workspaceUrl :: string
  warehouseId :: string
  patToken :: string
  uuidCache :: "string \<rightharpoonup> cache_entry"
  cacheUpdatedAt :: "int option"

text \<open>
  \<open>getConfig()\<close>: \<open>stored.x || default\<close> takes the default for an absent key and for
  a falsy value (the empty string, the number 0).
\<close>

definition getConfig :: "storage \<Rightarrow> config" where
  "getConfig stored =
     \<lparr>workspaceUrl = (case stored_workspaceUrl stored of None \<Rightarrow> [] | Some s \<Rightarrow> s),
      warehouseId = (case stored_warehouseId stored of None \<Rightarrow> [] | Some s \<Rightarrow> s),
      patToken = (case stored_patToken stored of None \<Rightarrow> [] | Some s \<Rightarrow> s),
      uuidCache = (case stored_uuidCache stored of None \<Rightarrow> Map.empty | Some c \<Rightarrow> c),
      cacheUpdatedAt =
        (case stored_cacheUpdatedAt stored of
           None \<Rightarrow> None
         | Some t \<Rightarrow> if t = 0 then None else Some t)\<rparr>"

definition CACHE_TTL_MS :: int where
  "CACHE_TTL_MS = 24 * 60 * 60 * 1000"

section \<open>background.js: the SQL Statement API\<close>

text \<open>
  The part of a response body the program reads: \<open>status.state\<close>,
  \<open>status.error?.message\<close> (\<open>None\<close> when there is no error object or no message) and
  the text \<open>JSON.stringify(status)\<close>; \<open>statement_id\<close>; and \<open>result?.data_array\<close>.
\<close>

record exec_status =
  state :: string
  error_message :: "string option"
  status_json :: string

record response_data =
  status :: "exec_status option"
  statement_id :: jsval
  data_array :: "jsval list list option"

text \<open>
  An HTTP response: \<open>ok\<close>, \<open>status\<close>, what \<open>text()\<close> resolves to, and what
  \<open>json()\<close> does (\<open>Inl\<close>: it rejects with this message).
\<close>

record response =
  ok :: bool
  http_status :: nat
  body_text :: string
  body_json :: "string + response_data"

text \<open>\<open>fetch\<close> rejects with a message or resolves to a response.\<close>

datatype fetch_outcome = Rejected string | Responded response

text \<open>
  The requests the program sends: the submission (URL, bearer token, \<open>warehouse_id\<close>,
  \<open>statement\<close>; the other fields of its body are constants) and the poll (URL, bearer
  token).
\<close>

datatype request = POST string string string string | GET string string

text \<open>
  The remote endpoint: the outcomes of the coming calls to \<open>fetch\<close>, in order, and the
  requests sent so far. A call to \<open>fetch\<close> takes the next outcome; \<open>None\<close> means that
  the script holds no further outcome, and a computation that needs one has no result
  in the model.
\<close>

record network =
  script :: "fetch_outcome list"
  requests :: "request list"

definition fetch :: "request \<Rightarrow> network \<Rightarrow> (fetch_outcome \<times> network) option" where
  "fetch rq net =
     (case script net of
        [] \<Rightarrow> None
      | out # rest \<Rightarrow> Some (out, \<lparr>script = rest, requests = requests net @ [rq]\<rparr>))"

text \<open>
  The poll loop of \<open>executeSql\<close>, lines 76 to 87, from the current \<open>data\<close>: \<open>Inl\<close> is
  the message of the error thrown, \<open>Inr\<close> the \<open>data\<close> the loop ends with. The wait of
  one second between polls has no part in the result.
\<close>

function poll ::
  "string \<Rightarrow> string \<Rightarrow> response_data \<Rightarrow> network
     \<Rightarrow> ((string + response_data) \<times> network) option" where
  "poll url token d net =
     (case status d of
        None \<Rightarrow> Some (Inr d, net)
      | Some st \<Rightarrow>
          if state st = ''PENDING'' \<or> state st = ''RUNNING'' then
            (case fetch (GET (url @ ''/'' @ template (statement_id d)) token) net of
               None \<Rightarrow> None
             | Some (Rejected msg, net') \<Rightarrow> Some (Inl msg, net')
             | Some (Responded pollResp, net') \<Rightarrow>
                 if \<not> ok pollResp then
                   Some (Inl (''SQL poll failed ('' @ decimal (http_status pollResp) @ ''): ''
                              @ body_text pollResp), net')
                 else (case body_json pollResp of
                         Inl msg \<Rightarrow> Some (Inl msg, net')
                       | Inr d' \<Rightarrow> poll url token d' net'))
          else Some (Inr d, net))"
  by pat_completeness auto
termination
  by (relation "measure (\<lambda>(url, token, d, net). length (script net))")
     (auto simp: fetch_def split: list.splits)

text \<open>What follows the loop, lines 89 to 97.\<close>

definition finish :: "response_data \<Rightarrow> string + response_data" where
  "finish d =
     (case status d of
        None \<Rightarrow> Inr d
      | Some st \<Rightarrow>
          if state st = ''FAILED'' then
            Inl (''SQL failed: '' @
                 (case error_message st of
                    None \<Rightarrow> status_json st
                  | Some m \<Rightarrow> if m = [] then status_json st else m))
          else Inr d)"

definition statements_url :: "string \<Rightarrow> string" where
  "statements_url wsUrl = strip_trailing_slashes wsUrl @ ''/api/2.0/sql/statements''"

text \<open>
  \<open>executeSql(workspaceUrl, patToken, warehouseId, sql)\<close>: the message of the error
  thrown, or the \<open>data\<close> returned, and the endpoint afterwards.
\<close>

definition executeSql ::
  "string \<Rightarrow> string \<Rightarrow> string \<Rightarrow> string \<Rightarrow> network
     \<Rightarrow> ((string + response_data) \<times> network) option" where
  "executeSql wsUrl token warehouse sql net =
     (let url = statements_url wsUrl in
      case fetch (POST url token warehouse sql) net of
        None \<Rightarrow> None
      | Some (Rejected msg, net') \<Rightarrow> Some (Inl msg, net')
      | Some (Responded submitResp, net') \<Rightarrow>
          if \<not> ok submitResp then
            Some (Inl (''SQL submit failed ('' @ decimal (http_status submitResp) @ ''): ''
                       @ body_text submitResp), net')
          else (case body_json submitResp of
                  Inl msg \<Rightarrow> Some (Inl msg, net')
                | Inr d \<Rightarrow>
                    (case poll url token d net' of
                       None \<Rightarrow> None
                     | Some (Inl msg, net'') \<Rightarrow> Some (Inl msg, net'')
                     | Some (Inr d', net'') \<Rightarrow> Some (finish d', net''))))"

text \<open>The statements submitted so far, in order.\<close>

fun statement_of :: "request \<Rightarrow> string option" where
  "statement_of (POST url token warehouse sql) = Some sql"
| "statement_of (GET url token) = None"

definition submitted :: "network \<Rightarrow> string list" where
  "submitted net = List.map_filter statement_of (requests net)"

section \<open>background.js: resolving identifiers\<close>

text \<open>The three statements, with the line breaks and the indentation of the source.\<close>

definition line :: "nat \<Rightarrow> string \<Rightarrow> string" where
  "line indent s = [CHR 0x0A] @ replicate indent CHR '' '' @ s"

definition table_sql :: "string \<Rightarrow> string" where
  "table_sql conditions =
     line 8 ''SELECT table_catalog, table_schema, table_name, storage_sub_directory''
     @ line 8 ''FROM system.information_schema.tables''
     @ line 8 (''WHERE storage_sub_directory IN ('' @ conditions @ '')'')
     @ line 6 []"

definition schema_sql :: "string \<Rightarrow> string" where
  "schema_sql u =
     line 10 ''SELECT DISTINCT table_catalog, table_schema''
     @ line 10 ''FROM system.information_schema.tables''
     @ line 10 (''WHERE storage_path LIKE '' @ [CHR 0x27] @ ''%/schemas/'' @ u @ ''/%'' @ [CHR 0x27])
     @ line 10 ''LIMIT 1''
     @ line 8 []"

definition catalog_sql :: "string \<Rightarrow> string" where
  "catalog_sql u =
     line 10 ''SELECT DISTINCT table_catalog''
     @ line 10 ''FROM system.information_schema.tables''
     @ line 10 (''WHERE storage_path LIKE '' @ [CHR 0x27] @ ''%/catalogs/'' @ u @ ''/%'' @ [CHR 0x27])
     @ line 10 ''LIMIT 1''
     @ line 8 []"

text \<open>\<open>tableUuids.map((u) => `'tables/${u.uuid}'`).join(", ")\<close>.\<close>

definition conditions_of :: "typed_uuid list \<Rightarrow> string" where
  "conditions_of tableUuids =
     join_comma (map (\<lambda>u. [CHR 0x27] @ ''tables/'' @ uuid u @ [CHR 0x27]) tableUuids)"

text \<open>
  The loop over the rows of the table statement, lines 146 to 154. When the fourth cell
  of a row is not a string, \<open>subDir.replace\<close> throws; the \<open>catch\<close> of line 157 only
  logs, so the rows before it stay in \<open>results\<close> and the rows after it are not read.
\<close>

fun table_rows ::
  "jsval list list \<Rightarrow> (string \<times> resolved_name) list \<Rightarrow> (string \<times> resolved_name) list" where
  "table_rows [] results = results"
| "table_rows (row # rows) results =
     (case cell row 3 of
        JString subDir \<Rightarrow>
          table_rows rows
            (AList.update (toLowerCase (remove_first ''tables/'' subDir))
               \<lparr>type = ''table'',
                fullName = JString (template (cell row 0) @ ''.'' @ template (cell row 1)
                                    @ ''.'' @ template (cell row 2))\<rparr>
               results)
      | _ \<Rightarrow> results)"

text \<open>
  The table group, lines 132 to 160: one statement for the whole group. An error of
  the executor is caught and logged, and \<open>results\<close> stays as it is.
\<close>

definition resolve_tables ::
  "config \<Rightarrow> typed_uuid list \<Rightarrow> (string \<times> resolved_name) list \<Rightarrow> network
     \<Rightarrow> ((string \<times> resolved_name) list \<times> network) option" where
  "resolve_tables cfg tableUuids results net =
     (if tableUuids = [] then Some (results, net)
      else (case executeSql (workspaceUrl cfg) (patToken cfg) (warehouseId cfg)
                   (table_sql (conditions_of tableUuids)) net of
              None \<Rightarrow> None
            | Some (Inl err, net') \<Rightarrow> Some (results, net')
            | Some (Inr result, net') \<Rightarrow>
                Some (case data_array result of
                        None \<Rightarrow> results
                      | Some rows \<Rightarrow> table_rows rows results, net')))"

text \<open>
  The schema group, lines 163 to 186: one statement for each identifier; an error is
  caught and logged inside the loop, which goes on with the next identifier.
\<close>

fun resolve_schemas ::
  "config \<Rightarrow> typed_uuid list \<Rightarrow> (string \<times> resolved_name) list \<Rightarrow> network
     \<Rightarrow> ((string \<times> resolved_name) list \<times> network) option" where
  "resolve_schemas cfg [] results net = Some (results, net)"
| "resolve_schemas cfg (u # us) results net =
     (case executeSql (workspaceUrl cfg) (patToken cfg) (warehouseId cfg)
             (schema_sql (uuid u)) net of
        None \<Rightarrow> None
      | Some (Inl err, net') \<Rightarrow> resolve_schemas cfg us results net'
      | Some (Inr result, net') \<Rightarrow>
          resolve_schemas cfg us
            (case data_array result of
               None \<Rightarrow> results
             | Some [] \<Rightarrow> results
             | Some (row # rows) \<Rightarrow>
                 AList.update (uuid u)
                   \<lparr>type = ''schema'',
                    fullName = JString (template (cell row 0) @ ''.'' @ template (cell row 1))\<rparr>
                   results)
            net')"

text \<open>The catalog group, lines 189 to 212; \<open>fullName\<close> is the first cell as it is.\<close>

fun resolve_catalogs ::
  "config \<Rightarrow> typed_uuid list \<Rightarrow> (string \<times> resolved_name) list \<Rightarrow> network
     \<Rightarrow> ((string \<times> resolved_name) list \<times> network) option" where
  "resolve_catalogs cfg [] results net = Some (results, net)"
| "resolve_catalogs cfg (u # us) results net =
     (case executeSql (workspaceUrl cfg) (patToken cfg) (warehouseId cfg)
             (catalog_sql (uuid u)) net of
        None \<Rightarrow> None
      | Some (Inl err, net') \<Rightarrow> resolve_catalogs cfg us results net'
      | Some (Inr result, net') \<Rightarrow>
          resolve_catalogs cfg us
            (case data_array result of
               None \<Rightarrow> results
             | Some [] \<Rightarrow> results
             | Some (row # rows) \<Rightarrow>
                 AList.update (uuid u) \<lparr>type = ''catalog'', fullName = cell row 0\<rparr> results)
            net')"

definition validUuids :: "typed_uuid list \<Rightarrow> typed_uuid list" where
  "validUuids typedUuids = filter (\<lambda>u. UUID_RE_test (uuid u)) typedUuids"

definition tableUuids :: "typed_uuid list \<Rightarrow> typed_uuid list" where
  "tableUuids typedUuids = filter (\<lambda>u. type u = ''table'') (validUuids typedUuids)"

definition schemaUuids :: "typed_uuid list \<Rightarrow> typed_uuid list" where
  "schemaUuids typedUuids = filter (\<lambda>u. type u = ''schema'') (validUuids typedUuids)"

definition catalogUuids :: "typed_uuid list \<Rightarrow> typed_uuid list" where
  "catalogUuids typedUuids = filter (\<lambda>u. type u = ''catalog'') (validUuids typedUuids)"

text \<open>\<open>resolveUuids(typedUuids, config)\<close>: the object \<open>results\<close> and the endpoint afterwards.\<close>

definition resolveUuids ::
  "typed_uuid list \<Rightarrow> config \<Rightarrow> network \<Rightarrow> ((string \<times> resolved_name) list \<times> network) option" where
  "resolveUuids typedUuids cfg net =
     (if typedUuids = [] then Some ([], net)
      else if validUuids typedUuids = [] then Some ([], net)
      else (case resolve_tables cfg (tableUuids typedUuids) [] net of
              None \<Rightarrow> None
            | Some (results1, net1) \<Rightarrow>
                (case resolve_schemas cfg (schemaUuids typedUuids) results1 net1 of
                   None \<Rightarrow> None
                 | Some (results2, net2) \<Rightarrow>
                     resolve_catalogs cfg (catalogUuids typedUuids) results2 net2)))"

section \<open>background.js: the cache\<close>

text \<open>The loop of \<open>getCachedResults\<close>, lines 226 to 234.\<close>

fun split_loop ::
  "(string \<rightharpoonup> cache_entry) \<Rightarrow> int \<Rightarrow> typed_uuid list
     \<Rightarrow> (string \<times> resolved_name) list \<times> typed_uuid list
     \<Rightarrow> (string \<times> resolved_name) list \<times> typed_uuid list" where
  "split_loop cache now [] acc = acc"
| "split_loop cache now (item # items) (cached, uncached) =
     (let key = toLowerCase (uuid item) in
      case cache key of
        None \<Rightarrow> split_loop cache now items (cached, uncached @ [item])
      | Some entry \<Rightarrow>
          if now - cachedAt entry < CACHE_TTL_MS
          then split_loop cache now items (AList.update key (data entry) cached, uncached)
          else split_loop cache now items (cached, uncached @ [item]))"

text \<open>
  \<open>getCachedResults(typedUuids)\<close> on the storage, with the value of \<open>Date.now()\<close>:
  the object \<open>cached\<close> and the list \<open>uncached\<close>.
\<close>

definition getCachedResults ::
  "storage \<Rightarrow> int \<Rightarrow> typed_uuid list \<Rightarrow> (string \<times> resolved_name) list \<times> typed_uuid list" where
  "getCachedResults stored now typedUuids =
     split_loop (uuidCache (getConfig stored)) now typedUuids ([], [])"

text \<open>
  \<open>Object.entries(obj)\<close>: each key of the object once, with its value. An object built
  by assignments has no repeated key, and then these are the pairs of the list as they
  are.
\<close>

definition entries :: "(string \<times> 'v) list \<Rightarrow> (string \<times> 'v) list" where
  "entries obj = AList.clearjunk obj"

text \<open>The loop of \<open>updateCache\<close>, lines 244 to 246.\<close>

fun merge_loop ::
  "(string \<times> resolved_name) list \<Rightarrow> int \<Rightarrow> (string \<rightharpoonup> cache_entry)
     \<Rightarrow> (string \<rightharpoonup> cache_entry)" where
  "merge_loop [] now cache = cache"
| "merge_loop ((u, d) # rest) now cache =
     merge_loop rest now (cache(u \<mapsto> \<lparr>data = d, cachedAt = now\<rparr>))"

text \<open>\<open>updateCache(newResults)\<close> on the storage, with the value of \<open>Date.now()\<close>.\<close>

definition updateCache :: "(string \<times> resolved_name) list \<Rightarrow> int \<Rightarrow> storage \<Rightarrow> storage" where
  "updateCache newResults now stored =
     stored\<lparr>stored_uuidCache :=
              Some (merge_loop (entries newResults) now (uuidCache (getConfig stored))),
            stored_cacheUpdatedAt := Some now\<rparr>"

section \<open>background.js: the lookup\<close>

text \<open>\<open>{ ...a, ...b }\<close>.\<close>

definition spread ::
  "(string \<times> 'v) list \<Rightarrow> (string \<times> 'v) list \<Rightarrow> (string \<times> 'v) list" where
  "spread a b = foldl (\<lambda>obj (k, v). AList.update k v obj) [] (entries a @ entries b)"

text \<open>The response to \<open>lookupUuids\<close>; \<open>error = None\<close> when the response has no such field.\<close>

record lookup_response =
  matches :: "(string \<times> resolved_name) list"
  error :: "string option"

text \<open>
  \<open>typedUuids_of\<close> is the \<open>map\<close> of lines 323 to 326. What follows is the
  case \<open>lookupUuids\<close> of \<open>handleMessage\<close>, lines 321 to 353, on the list
  \<open>message.uuids\<close>, with the values of \<open>Date.now()\<close> in \<open>getCachedResults\<close> and in
  \<open>updateCache\<close>: the response, the storage and the endpoint afterwards.

  \<open>resolveUuids\<close> catches every error of the executor itself and the storage is taken
  to succeed, so nothing is thrown inside the \<open>try\<close> of line 341 and its \<open>catch\<close> has no
  branch here.
\<close>

definition typedUuids_of :: "typed_uuid list \<Rightarrow> typed_uuid list" where
  "typedUuids_of uuids = map (\<lambda>u. \<lparr>type = type u, uuid = toLowerCase (uuid u)\<rparr>) uuids"

definition lookupUuids ::
  "typed_uuid list \<Rightarrow> int \<Rightarrow> int \<Rightarrow> storage \<Rightarrow> network
     \<Rightarrow> (lookup_response \<times> storage \<times> network) option" where
  "lookupUuids uuids now_split now_merge stored net =
     (let typedUuids = typedUuids_of uuids in
      if typedUuids = [] then Some (\<lparr>matches = [], error = None\<rparr>, stored, net)
      else
        (case getCachedResults stored now_split typedUuids of
           (cached, uncached) \<Rightarrow>
             if uncached \<noteq> [] then
               (let cfg = getConfig stored in
                if patToken cfg = [] then
                  Some (\<lparr>matches = cached, error = Some ''No PAT token configured''\<rparr>,
                        stored, net)
                else
                  (case resolveUuids uncached cfg net of
                     None \<Rightarrow> None
                   | Some (freshResults, net') \<Rightarrow>
                       Some (\<lparr>matches = spread cached freshResults, error = None\<rparr>,
                             updateCache freshResults now_merge stored, net')))
             else Some (\<lparr>matches = spread cached [], error = None\<rparr>, stored, net)))"

section \<open>Notions the properties are stated with\<close>

text \<open>
  A response that keeps the executor polling: the call succeeded and the body is a job
  in state \<open>PENDING\<close> or \<open>RUNNING\<close>.
\<close>

definition pending :: "response \<Rightarrow> bool" where
  "pending r =
     (ok r \<and>
      (case body_json r of
         Inl msg \<Rightarrow> False
       | Inr d \<Rightarrow>
           (case status d of
              None \<Rightarrow> False
            | Some st \<Rightarrow> state st = ''PENDING'' \<or> state st = ''RUNNING'')))"

text \<open>The poll request that follows a response, by the \<open>statement_id\<close> of its body.\<close>

definition poll_of :: "string \<Rightarrow> string \<Rightarrow> response \<Rightarrow> request" where
  "poll_of url token r =
     GET (url @ ''/'' @ (case body_json r of Inl msg \<Rightarrow> [] | Inr d \<Rightarrow> template (statement_id d)))
         token"

text \<open>
  The statements of the three groups of a list of identifiers, in the order of the
  source: one for the table group when it is not empty, then one for each schema
  identifier, then one for each catalog identifier.
\<close>

definition group_statements :: "typed_uuid list \<Rightarrow> string list" where
  "group_statements typedUuids =
     (if tableUuids typedUuids = [] then []
      else [table_sql (conditions_of (tableUuids typedUuids))])
     @ map (\<lambda>u. schema_sql (uuid u)) (schemaUuids typedUuids)
     @ map (\<lambda>u. catalog_sql (uuid u)) (catalogUuids typedUuids)"

section \<open>Examples\<close>

definition id1 :: string where "id1 = ''11111111-1111-1111-1111-111111111111''"
definition id2 :: string where "id2 = ''22222222-2222-2222-2222-222222222222''"
definition id3 :: string where "id3 = ''33333333-3333-3333-3333-333333333333''"

definition name1 :: resolved_name where
  "name1 = \<lparr>type = ''table'', fullName = JString ''main.sales.orders''\<rparr>"

definition name2 :: resolved_name where
  "name2 = \<lparr>type = ''schema'', fullName = JString ''main.sales''\<rparr>"

text \<open>
  A storage with a token and two cache entries, written at times 1000 and 0. At time
  86400000 the first entry is younger than the time to live and the second is exactly
  as old.
\<close>

definition example_storage :: storage where
  "example_storage =
     \<lparr>stored_workspaceUrl = Some ''https://dbc.example.com/'',
      stored_warehouseId = Some ''wh1'',
      stored_patToken = Some ''tok'',
      stored_uuidCache =
        Some [id1 \<mapsto> \<lparr>data = name1, cachedAt = 1000\<rparr>, id2 \<mapsto> \<lparr>data = name2, cachedAt = 0\<rparr>],
      stored_cacheUpdatedAt = Some 1000\<rparr>"

definition example_request :: "typed_uuid list" where
  "example_request =
     [\<lparr>type = ''table'', uuid = id1\<rparr>, \<lparr>type = ''schema'', uuid = id2\<rparr>,
      \<lparr>type = ''table'', uuid = id3\<rparr>]"

text \<open>
  The body of a response of the endpoint for a job in a given state, with an optional
  error message and optional rows, and the response that carries it.
\<close>

definition quoted :: "string \<Rightarrow> string" where
  "quoted s = [CHR 0x22] @ s @ [CHR 0x22]"

definition job_data :: "string \<Rightarrow> string option \<Rightarrow> jsval list list option \<Rightarrow> response_data" where
  "job_data s msg rows =
     \<lparr>status =
        Some \<lparr>state = s,
              error_message = msg,
              status_json =
                ''{'' @ quoted ''state'' @ '':'' @ quoted s @
                (case msg of
                   None \<Rightarrow> []
                 | Some m \<Rightarrow> '','' @ quoted ''error'' @ '':{'' @ quoted ''message'' @ '':'' @ quoted m @ ''}'')
                @ ''}''\<rparr>,
      statement_id = JString ''st-1'',
      data_array = rows\<rparr>"

definition job_response :: "string \<Rightarrow> string option \<Rightarrow> jsval list list option \<Rightarrow> response" where
  "job_response s msg rows =
     \<lparr>ok = True, http_status = 200, body_text = [], body_json = Inr (job_data s msg rows)\<rparr>"

definition example_rows :: "jsval list list" where
  "example_rows = [[JString ''main'', JString ''sales'', JString ''orders'', JString (''tables/'' @ id3)]]"

text \<open>
  A request of four items: a table, a schema and a catalog identifier, and a token that
  is not an identifier; and an endpoint that answers the table statement with one row,
  fails the schema statement and answers the catalog statement with no row.
\<close>

definition bad_id :: string where
  "bad_id = ''x'' @ [CHR 0x27] @ '' OR 1=1 --''"

definition mixed_request :: "typed_uuid list" where
  "mixed_request =
     [\<lparr>type = ''table'', uuid = id3\<rparr>, \<lparr>type = ''table'', uuid = bad_id\<rparr>,
      \<lparr>type = ''schema'', uuid = id2\<rparr>, \<lparr>type = ''catalog'', uuid = id1\<rparr>]"

definition mixed_network :: network where
  "mixed_network =
     \<lparr>script =
        [Responded (job_response ''SUCCEEDED'' None (Some example_rows)),
         Responded (job_response ''PENDING'' None None),
         Responded (job_response ''FAILED'' (Some ''x'') None),
         Responded (job_response ''SUCCEEDED'' None (Some []))],
      requests = []\<rparr>"

text \<open>
  An endpoint where the first statement is pending and then fails with the message
  \<open>x\<close>, and one where a second statement then succeeds with one row.
\<close>

definition failed_network :: network where
  "failed_network =
     \<lparr>script =
        [Responded (job_response ''PENDING'' None None),
         Responded (job_response ''FAILED'' (Some ''x'') None)],
      requests = []\<rparr>"

definition failing_network :: network where
  "failing_network =
     \<lparr>script =
        [Responded (job_response ''PENDING'' None None),
         Responded (job_response ''FAILED'' (Some ''x'') None),
         Responded (job_response ''SUCCEEDED'' None (Some [[JString ''main'', JString ''sales'']]))],
      requests = []\<rparr>"

section \<open>Endpoints that answer every statement\<close>

text \<open>
  An outcome that ends a call of the executor: \<open>fetch\<close> rejects, or the response is
  not one that keeps the executor polling.
\<close>

definition terminal :: "fetch_outcome \<Rightarrow> bool" where
  "terminal out = (case out of Rejected msg \<Rightarrow> True | Responded r \<Rightarrow> \<not> pending r)"

text \<open>
  The answer to one statement: pending responses and the outcome that ends the call.
  \<open>answers\<close> is the script of an endpoint that gives these answers one after the other,
  and \<open>answered\<close> says that each answer has this shape.
\<close>

definition answers :: "(response list \<times> fetch_outcome) list \<Rightarrow> fetch_outcome list" where
  "answers blocks = concat (map (\<lambda>(pre, out). map Responded pre @ [out]) blocks)"

definition answered :: "(response list \<times> fetch_outcome) list \<Rightarrow> bool" where
  "answered blocks = list_all (\<lambda>(pre, out). list_all pending pre \<and> terminal out) blocks"

text \<open>
  A request with two identifiers in each group, and the answers of an endpoint to its
  five statements: rows for the two tables, a row for the first schema, a failure for
  the second schema after one poll, a row for the first catalog and a rejected
  \<open>fetch\<close> for the second.
\<close>

definition id4 :: string where "id4 = ''44444444-4444-4444-4444-444444444444''"
definition id5 :: string where "id5 = ''55555555-5555-5555-5555-555555555555''"
definition id6 :: string where "id6 = ''66666666-6666-6666-6666-666666666666''"

definition batch_request :: "typed_uuid list" where
  "batch_request =
     [\<lparr>type = ''schema'', uuid = id1\<rparr>, \<lparr>type = ''table'', uuid = id3\<rparr>,
      \<lparr>type = ''catalog'', uuid = id5\<rparr>, \<lparr>type = ''table'', uuid = id4\<rparr>,
      \<lparr>type = ''schema'', uuid = id2\<rparr>, \<lparr>type = ''catalog'', uuid = id6\<rparr>]"

definition batch_answers :: "(response list \<times> fetch_outcome) list" where
  "batch_answers =
     [([], Responded (job_response ''SUCCEEDED'' None
             (Some [[JString ''main'', JString ''sales'', JString ''orders'',
                     JString (''tables/'' @ id3)],
                    [JString ''main'', JString ''sales'', JString ''items'',
                     JString (''tables/'' @ id4)]]))),
      ([], Responded (job_response ''SUCCEEDED'' None (Some [[JString ''main'', JString ''sales'']]))),
      ([job_response ''RUNNING'' None None],
       Responded (job_response ''FAILED'' (Some ''x'') None)),
      ([], Responded (job_response ''SUCCEEDED'' None (Some [[JString ''main'']]))),
      ([], Rejected ''Failed to fetch'')]"

definition batch_network :: network where
  "batch_network = \<lparr>script = answers batch_answers, requests = []\<rparr>"

text \<open>
  A lookup of a cached table, an expired schema, a table and a catalog, on an endpoint
  where the three statements fail: the table statement after one poll with the message
  \<open>x\<close>, the schema statement with \<open>y\<close> and the catalog statement with \<open>z\<close>.
\<close>

definition failing_request :: "typed_uuid list" where
  "failing_request =
     [\<lparr>type = ''table'', uuid = id1\<rparr>, \<lparr>type = ''schema'', uuid = id2\<rparr>,
      \<lparr>type = ''table'', uuid = id3\<rparr>, \<lparr>type = ''catalog'', uuid = id4\<rparr>]"

definition all_failing_network :: network where
  "all_failing_network =
     \<lparr>script =
        [Responded (job_response ''PENDING'' None None),
         Responded (job_response ''FAILED'' (Some ''x'') None),
         Responded (job_response ''FAILED'' (Some ''y'') None),
         Responded (job_response ''FAILED'' (Some ''z'') None)],
      requests = []\<rparr>"

section \<open>The scanner keeps the most specific type\<close>

lemma typePriority_empty: "typePriority [] = 0"
  by (simp add: typePriority_def)

lemma most_specific_step:
  assumes "most_specific occ m"
  shows "most_specific (occ @ [p])
           (case map_of m (uuid p) of
              None \<Rightarrow> AList.update (uuid p) (type p) m
            | Some existing \<Rightarrow>
                if existing = [] \<or> typePriority (type p) > typePriority existing
                then AList.update (uuid p) (type p) m
                else m)"
  unfolding most_specific_def
proof
  fix u
  from assms have a: "case map_of m u of
       None \<Rightarrow> u \<notin> uuid ` set occ
     | Some t \<Rightarrow> (\<exists>x\<in>set occ. uuid x = u \<and> type x = t) \<and>
          (\<forall>x\<in>set occ. uuid x = u \<longrightarrow> typePriority (type x) \<le> typePriority t)"
    unfolding most_specific_def by blast
  from assms have b: "case map_of m (uuid p) of
       None \<Rightarrow> uuid p \<notin> uuid ` set occ
     | Some t \<Rightarrow> (\<exists>x\<in>set occ. uuid x = uuid p \<and> type x = t) \<and>
          (\<forall>x\<in>set occ. uuid x = uuid p \<longrightarrow> typePriority (type x) \<le> typePriority t)"
    unfolding most_specific_def by blast
  show "case map_of (case map_of m (uuid p) of
          None \<Rightarrow> AList.update (uuid p) (type p) m
        | Some existing \<Rightarrow>
            if existing = [] \<or> typePriority (type p) > typePriority existing
            then AList.update (uuid p) (type p) m
            else m) u of
       None \<Rightarrow> u \<notin> uuid ` set (occ @ [p])
     | Some t \<Rightarrow> (\<exists>x\<in>set (occ @ [p]). uuid x = u \<and> type x = t) \<and>
          (\<forall>x\<in>set (occ @ [p]). uuid x = u \<longrightarrow> typePriority (type x) \<le> typePriority t)"
    using a b
    by (cases "u = uuid p")
       (auto simp: update_conv typePriority_empty image_iff split: option.splits if_splits)
qed

lemma most_specific_keep_types:
  "most_specific occ m \<Longrightarrow> most_specific (occ @ parsed) (keep_types parsed m)"
proof (induction parsed arbitrary: occ m)
  case Nil
  then show ?case by simp
next
  case (Cons p parsed)
  from most_specific_step[OF Cons.prems, of p] Cons.IH[of "occ @ [p]"]
  show ?case by simp
qed

lemma distinct_keep_types:
  "distinct (map fst m) \<Longrightarrow> distinct (map fst (keep_types parsed m))"
  by (induction parsed arbitrary: m) (auto simp: distinct_update split: option.splits)

lemma scan_spans_elements:
  "scan_spans spans (els, m) = (els', m') \<Longrightarrow>
   concat (map snd els') = concat (map snd els) @ occurrences spans"
proof (induction spans arbitrary: els m)
  case Nil
  then show ?case by (simp add: occurrences_def)
next
  case (Cons sp spans)
  show ?case
  proof (cases "annotated sp \<or> \<not> str_includes (textContent sp) ''__unitystorage''
                \<or> parseUnityPath (textContent sp) = None")
    case True
    with Cons.prems have "scan_spans spans (els, m) = (els', m')"
      by (auto split: if_splits)
    from Cons.IH[OF this] True show ?thesis
      by (auto simp: occurrences_def parsed_of_def)
  next
    case False
    then obtain parsed where p: "parseUnityPath (textContent sp) = Some parsed"
      by auto
    with False Cons.prems
    have "scan_spans spans (els @ [(sp, parsed)], keep_types parsed m) = (els', m')"
      by simp
    from Cons.IH[OF this] False p show ?thesis
      by (simp add: occurrences_def parsed_of_def)
  qed
qed

lemma scan_spans_most_specific:
  "most_specific (concat (map snd els)) m \<Longrightarrow> scan_spans spans (els, m) = (els', m') \<Longrightarrow>
   most_specific (concat (map snd els')) m'"
proof (induction spans arbitrary: els m)
  case Nil
  then show ?case by simp
next
  case (Cons sp spans)
  show ?case
  proof (cases "annotated sp \<or> \<not> str_includes (textContent sp) ''__unitystorage''
                \<or> parseUnityPath (textContent sp) = None")
    case True
    with Cons.prems(2) have "scan_spans spans (els, m) = (els', m')"
      by (auto split: if_splits)
    from Cons.IH[OF Cons.prems(1) this] show ?thesis .
  next
    case False
    then obtain parsed where p: "parseUnityPath (textContent sp) = Some parsed"
      by auto
    with False Cons.prems(2)
    have s: "scan_spans spans (els @ [(sp, parsed)], keep_types parsed m) = (els', m')"
      by simp
    have "most_specific (concat (map snd (els @ [(sp, parsed)]))) (keep_types parsed m)"
      using most_specific_keep_types[OF Cons.prems(1), of parsed] by simp
    from Cons.IH[OF this s] show ?thesis .
  qed
qed

lemma scan_spans_distinct:
  "distinct (map fst m) \<Longrightarrow> scan_spans spans (els, m) = (els', m') \<Longrightarrow> distinct (map fst m')"
proof (induction spans arbitrary: els m)
  case Nil
  then show ?case by simp
next
  case (Cons sp spans)
  show ?case
  proof (cases "annotated sp \<or> \<not> str_includes (textContent sp) ''__unitystorage''
                \<or> parseUnityPath (textContent sp) = None")
    case True
    with Cons.prems(2) have "scan_spans spans (els, m) = (els', m')"
      by (auto split: if_splits)
    from Cons.IH[OF Cons.prems(1) this] show ?thesis .
  next
    case False
    then obtain parsed where p: "parseUnityPath (textContent sp) = Some parsed"
      by auto
    with False Cons.prems(2)
    have s: "scan_spans spans (els @ [(sp, parsed)], keep_types parsed m) = (els', m')"
      by simp
    from Cons.IH[OF distinct_keep_types[OF Cons.prems(1)] s] show ?thesis .
  qed
qed

lemma findUnityElements_most_specific:
  "most_specific (occurrences spans) (snd (findUnityElements spans))"
proof -
  obtain els m where f: "scan_spans spans ([], []) = (els, m)"
    by (cases "scan_spans spans ([], [])")
  have "most_specific (concat (map snd ([] :: (span \<times> typed_uuid list) list))) []"
    by (simp add: most_specific_def)
  from scan_spans_most_specific[OF this f] scan_spans_elements[OF f] f
  show ?thesis by (simp add: findUnityElements_def)
qed

lemma findUnityElements_distinct: "distinct (map fst (snd (findUnityElements spans)))"
proof -
  obtain els m where f: "scan_spans spans ([], []) = (els, m)"
    by (cases "scan_spans spans ([], [])")
  from scan_spans_distinct[OF _ f] f show ?thesis
    by (simp add: findUnityElements_def)
qed

lemma parse_segments_types:
  "x \<in> set (parse_segments segs) \<Longrightarrow> type x \<in> {''table'', ''schema'', ''catalog''}"
  by (induction segs rule: parse_segments.induct) (auto split: if_splits)

lemma parsed_of_types:
  assumes "x \<in> set (parsed_of sp)"
  shows "type x \<in> {''table'', ''schema'', ''catalog''}"
proof -
  from assms obtain parsed where p: "parseUnityPath (textContent sp) = Some parsed" "x \<in> set parsed"
    by (cases "parseUnityPath (textContent sp)") (auto simp: parsed_of_def split: if_splits)
  from p(1) obtain segs where "parsed = parse_segments segs"
    unfolding parseUnityPath_def Let_def by (auto split: option.splits if_splits)
  with p(2) show ?thesis
    using parse_segments_types by blast
qed

lemma occurrences_types:
  "x \<in> set (occurrences spans) \<Longrightarrow> type x \<in> {''table'', ''schema'', ''catalog''}"
  unfolding occurrences_def using parsed_of_types by auto

lemma uuidsWithTypes_uuids: "map uuid (uuidsWithTypes spans) = map fst (snd (findUnityElements spans))"
  by (simp add: uuidsWithTypes_def case_prod_beta comp_def)

lemma uuidsWithTypes_mem:
  assumes "s \<in> set (uuidsWithTypes spans)"
  shows "map_of (snd (findUnityElements spans)) (uuid s) = Some (type s)"
proof -
  from assms obtain u t where "(u, t) \<in> set (snd (findUnityElements spans))"
    "s = \<lparr>type = t, uuid = u\<rparr>"
    by (auto simp: uuidsWithTypes_def)
  with findUnityElements_distinct[of spans] show ?thesis by simp
qed

text \<open>
  Claim C9. For every page, the scanner sends each identifier once, the identifiers sent
  are those that occur on the page, and the type sent for an identifier is the type of
  one of its occurrences and has the highest priority among them, in the order
  table (LEAF) above schema (BRANCH) above catalog (ROOT); every occurrence has one of
  these three types.
\<close>

theorem scanner_sends_most_specific_type:
  "distinct (map uuid (uuidsWithTypes spans)) \<and>
   uuid ` set (uuidsWithTypes spans) = uuid ` set (occurrences spans) \<and>
   (\<forall>s\<in>set (uuidsWithTypes spans).
      (\<exists>x\<in>set (occurrences spans). uuid x = uuid s \<and> type x = type s) \<and>
      (\<forall>x\<in>set (occurrences spans). uuid x = uuid s \<longrightarrow>
         typePriority (type x) \<le> typePriority (type s))) \<and>
   (\<forall>x\<in>set (occurrences spans). type x \<in> {''table'', ''schema'', ''catalog''}) \<and>
   typePriority ''catalog'' < typePriority ''schema'' \<and>
   typePriority ''schema'' < typePriority ''table''"
proof -
  have ms: "most_specific (occurrences spans) (snd (findUnityElements spans))"
    by (rule findUnityElements_most_specific)
  have d: "distinct (map uuid (uuidsWithTypes spans))"
    by (simp only: uuidsWithTypes_uuids findUnityElements_distinct)
  have "set (map uuid (uuidsWithTypes spans)) = uuid ` set (occurrences spans)"
  proof (rule set_eqI)
    fix u
    from ms have "case map_of (snd (findUnityElements spans)) u of
        None \<Rightarrow> u \<notin> uuid ` set (occurrences spans)
      | Some t \<Rightarrow> (\<exists>x\<in>set (occurrences spans). uuid x = u \<and> type x = t) \<and>
          (\<forall>x\<in>set (occurrences spans). uuid x = u \<longrightarrow> typePriority (type x) \<le> typePriority t)"
      unfolding most_specific_def by blast
    moreover have "u \<in> set (map fst (snd (findUnityElements spans))) \<longleftrightarrow>
        map_of (snd (findUnityElements spans)) u \<noteq> None"
      by (simp add: map_of_eq_None_iff)
    ultimately
    show "u \<in> set (map uuid (uuidsWithTypes spans)) \<longleftrightarrow> u \<in> uuid ` set (occurrences spans)"
      unfolding uuidsWithTypes_uuids
      by (cases "map_of (snd (findUnityElements spans)) u") (simp, force)
  qed
  then have e: "uuid ` set (uuidsWithTypes spans) = uuid ` set (occurrences spans)"
    by simp
  have f: "\<forall>s\<in>set (uuidsWithTypes spans).
      (\<exists>x\<in>set (occurrences spans). uuid x = uuid s \<and> type x = type s) \<and>
      (\<forall>x\<in>set (occurrences spans). uuid x = uuid s \<longrightarrow>
         typePriority (type x) \<le> typePriority (type s))"
  proof
    fix s assume s: "s \<in> set (uuidsWithTypes spans)"
    from ms have "case map_of (snd (findUnityElements spans)) (uuid s) of
        None \<Rightarrow> uuid s \<notin> uuid ` set (occurrences spans)
      | Some t \<Rightarrow> (\<exists>x\<in>set (occurrences spans). uuid x = uuid s \<and> type x = t) \<and>
          (\<forall>x\<in>set (occurrences spans). uuid x = uuid s \<longrightarrow> typePriority (type x) \<le> typePriority t)"
      unfolding most_specific_def by blast
    with uuidsWithTypes_mem[OF s]
    show "(\<exists>x\<in>set (occurrences spans). uuid x = uuid s \<and> type x = type s) \<and>
      (\<forall>x\<in>set (occurrences spans). uuid x = uuid s \<longrightarrow>
         typePriority (type x) \<le> typePriority (type s))"
      by simp
  qed
  have g: "\<forall>x\<in>set (occurrences spans). type x \<in> {''table'', ''schema'', ''catalog''}"
    using occurrences_types by blast
  have h1: "typePriority ''catalog'' < typePriority ''schema''"
    by (simp add: typePriority_def)
  have h2: "typePriority ''schema'' < typePriority ''table''"
    by (simp add: typePriority_def)
  show ?thesis
    by (intro conjI d e f g h1 h2)
qed

text \<open>
  On the example page the identifier occurs as a schema, as a table and as a catalog, and
  is sent once, as a table.
\<close>

theorem scanner_sends_most_specific_type_witness:
  "\<lparr>type = ''table'', uuid = ''01234567-89ab-cdef-0123-456789abcdef''\<rparr>
     \<in> set (uuidsWithTypes example_page) \<and>
   \<lparr>type = ''schema'', uuid = ''01234567-89ab-cdef-0123-456789abcdef''\<rparr>
     \<in> set (occurrences example_page) \<and>
   typePriority ''schema'' \<le> typePriority ''table'' \<and>
   length (uuidsWithTypes example_page) = 1"
proof -
  have a: "\<lparr>type = ''table'', uuid = ''01234567-89ab-cdef-0123-456789abcdef''\<rparr>
     \<in> set (uuidsWithTypes example_page)"
    by code_simp
  have b: "\<lparr>type = ''schema'', uuid = ''01234567-89ab-cdef-0123-456789abcdef''\<rparr>
     \<in> set (occurrences example_page)"
    by code_simp
  have c: "length (uuidsWithTypes example_page) = 1"
    by code_simp
  from scanner_sends_most_specific_type[of example_page]
  have "\<forall>s\<in>set (uuidsWithTypes example_page).
      \<forall>x\<in>set (occurrences example_page). uuid x = uuid s \<longrightarrow>
         typePriority (type x) \<le> typePriority (type s)"
    by blast
  from bspec[OF bspec[OF this a] b] have "typePriority ''schema'' \<le> typePriority ''table''"
    by simp
  with a b c show ?thesis by blast
qed

section \<open>The cache: split and merge\<close>

lemma split_loop_uncached:
  "snd (split_loop cache now items (c, u)) =
     u @ filter (\<lambda>x. \<not> (\<exists>e. cache (toLowerCase (uuid x)) = Some e \<and> now - cachedAt e < CACHE_TTL_MS)) items"
  by (induction items arbitrary: c u) (auto simp: Let_def split: option.splits)

lemma split_loop_cached:
  "map_of (fst (split_loop cache now items (c, u))) k =
     (if \<exists>x\<in>set items. toLowerCase (uuid x) = k \<and>
           (\<exists>e. cache k = Some e \<and> now - cachedAt e < CACHE_TTL_MS)
      then map_option data (cache k) else map_of c k)"
proof (induction items arbitrary: c u)
  case Nil
  then show ?case by simp
next
  case (Cons item items)
  show ?case
  proof (cases "\<exists>e. cache (toLowerCase (uuid item)) = Some e \<and> now - cachedAt e < CACHE_TTL_MS")
    case True
    then obtain e where e: "cache (toLowerCase (uuid item)) = Some e" "now - cachedAt e < CACHE_TTL_MS"
      by blast
    then have "split_loop cache now (item # items) (c, u) =
        split_loop cache now items (AList.update (toLowerCase (uuid item)) (data e) c, u)"
      by (simp add: Let_def)
    with e show ?thesis
      by (auto simp: Cons.IH update_conv')
  next
    case False
    then have "split_loop cache now (item # items) (c, u) =
        split_loop cache now items (c, u @ [item])"
      by (auto simp: Let_def split: option.splits)
    with False show ?thesis
      by (auto simp: Cons.IH)
  qed
qed

lemma split_loop_distinct:
  "distinct (map fst c) \<Longrightarrow> distinct (map fst (fst (split_loop cache now items (c, u))))"
  by (induction items arbitrary: c u) (auto simp: Let_def distinct_update split: option.splits)

lemma keys_map_of: "k \<in> fst ` set al \<longleftrightarrow> map_of al k \<noteq> None"
  by (simp add: map_of_eq_None_iff)

lemma merge_loop_distinct:
  "distinct (map fst es) \<Longrightarrow>
   merge_loop es now cache k =
     (case map_of es k of None \<Rightarrow> cache k | Some d \<Rightarrow> Some \<lparr>data = d, cachedAt = now\<rparr>)"
proof (induction es arbitrary: cache)
  case Nil
  then show ?case by simp
next
  case (Cons p es)
  obtain u d where p: "p = (u, d)" by (cases p)
  from Cons.prems p have u: "map_of es u = None" and dist: "distinct (map fst es)"
    by (auto simp: map_of_eq_None_iff)
  have "merge_loop (p # es) now cache k =
      merge_loop es now (cache(u \<mapsto> \<lparr>data = d, cachedAt = now\<rparr>)) k"
    by (simp add: p)
  also have "\<dots> = (case map_of es k of
        None \<Rightarrow> (cache(u \<mapsto> \<lparr>data = d, cachedAt = now\<rparr>)) k
      | Some d' \<Rightarrow> Some \<lparr>data = d', cachedAt = now\<rparr>)"
    by (rule Cons.IH[OF dist])
  also have "\<dots> = (case map_of (p # es) k of
        None \<Rightarrow> cache k
      | Some d' \<Rightarrow> Some \<lparr>data = d', cachedAt = now\<rparr>)"
    using u by (cases "k = u") (simp_all add: p split: option.splits)
  finally show ?case .
qed

lemma merge_loop_entries:
  "merge_loop (entries fresh) now cache k =
     (case map_of fresh k of None \<Rightarrow> cache k | Some d \<Rightarrow> Some \<lparr>data = d, cachedAt = now\<rparr>)"
  unfolding entries_def
  by (simp add: merge_loop_distinct distinct_clearjunk map_of_clearjunk)

lemma uuidCache_updateCache:
  "uuidCache (getConfig (updateCache fresh now stored)) k =
     (case map_of fresh k of
        None \<Rightarrow> uuidCache (getConfig stored) k
      | Some d \<Rightarrow> Some \<lparr>data = d, cachedAt = now\<rparr>)"
  by (cases "map_of fresh k") (simp_all add: updateCache_def getConfig_def merge_loop_entries)

lemma toLowerCase_idem: "toLowerCase (toLowerCase s) = toLowerCase s"
proof -
  have "lower_char (lower_char c) = lower_char c" for c
    unfolding lower_char_def by (auto split: option.splits if_splits)
  then show ?thesis by (simp add: toLowerCase_def)
qed

text \<open>
  Claim C6. For every requested identifier, \<open>getCachedResults\<close> reports it as a hit
  exactly when the cache holds an entry under its lower-cased token and
  \<open>now - cachedAt\<close> is less than 24 hours, and as a miss otherwise (no entry, or an age
  of 24 hours or more); a hit carries the value of the entry.
\<close>

theorem split_hit_iff_fresh_entry:
  assumes "getCachedResults stored now typedUuids = (cached, uncached)"
    and "x \<in> set typedUuids"
  shows "CACHE_TTL_MS = 24 * 60 * 60 * 1000 \<and>
    ((toLowerCase (uuid x) \<in> fst ` set cached) \<longleftrightarrow>
       (\<exists>entry. uuidCache (getConfig stored) (toLowerCase (uuid x)) = Some entry \<and>
                now - cachedAt entry < 24 * 60 * 60 * 1000)) \<and>
    ((x \<in> set uncached) \<longleftrightarrow>
       \<not> (\<exists>entry. uuidCache (getConfig stored) (toLowerCase (uuid x)) = Some entry \<and>
                  now - cachedAt entry < 24 * 60 * 60 * 1000)) \<and>
    (\<forall>entry. uuidCache (getConfig stored) (toLowerCase (uuid x)) = Some entry \<and>
             now - cachedAt entry < 24 * 60 * 60 * 1000 \<longrightarrow>
             map_of cached (toLowerCase (uuid x)) = Some (data entry))"
proof -
  let ?cache = "uuidCache (getConfig stored)"
  let ?k = "toLowerCase (uuid x)"
  have ttl: "CACHE_TTL_MS = 24 * 60 * 60 * 1000"
    by (simp add: CACHE_TTL_MS_def)
  from assms(1) have c: "cached = fst (split_loop ?cache now typedUuids ([], []))"
    and u: "uncached = snd (split_loop ?cache now typedUuids ([], []))"
    by (simp_all add: getCachedResults_def)
  have m: "map_of cached ?k =
      (if \<exists>e. ?cache ?k = Some e \<and> now - cachedAt e < CACHE_TTL_MS
       then map_option data (?cache ?k) else None)"
    using assms(2) by (auto simp: c split_loop_cached)
  have hit: "(?k \<in> fst ` set cached) \<longleftrightarrow>
       (\<exists>entry. ?cache ?k = Some entry \<and> now - cachedAt entry < 24 * 60 * 60 * 1000)"
    unfolding keys_map_of m ttl[symmetric] by auto
  have miss: "(x \<in> set uncached) \<longleftrightarrow>
       \<not> (\<exists>entry. ?cache ?k = Some entry \<and> now - cachedAt entry < 24 * 60 * 60 * 1000)"
    unfolding u split_loop_uncached ttl[symmetric] using assms(2) by simp
  have val: "\<forall>entry. ?cache ?k = Some entry \<and> now - cachedAt entry < 24 * 60 * 60 * 1000 \<longrightarrow>
             map_of cached ?k = Some (data entry)"
    unfolding m ttl[symmetric] by auto
  show ?thesis
    by (intro conjI ttl hit miss val)
qed

text \<open>
  Claim C4. \<open>getCachedResults\<close> partitions the request: each requested identifier is
  either a key of the hit object (under the lower-cased token the cache is keyed by) or
  in the miss list, never both and never neither; for an identifier that is lower-case
  already, as the lookup passes them, the key is the identifier itself. The misses are
  requested items and the hits are requested identifiers, each once.
\<close>

theorem split_total_partition:
  assumes "getCachedResults stored now typedUuids = (cached, uncached)"
  shows "(\<forall>x\<in>set typedUuids.
            (toLowerCase (uuid x) \<in> fst ` set cached) \<noteq> (uuid x \<in> uuid ` set uncached)) \<and>
         (\<forall>x\<in>set typedUuids.
            (toLowerCase (uuid x) \<in> fst ` set cached) \<noteq> (x \<in> set uncached)) \<and>
         (\<forall>x\<in>set typedUuids. toLowerCase (uuid x) = uuid x \<longrightarrow>
            (uuid x \<in> fst ` set cached) \<noteq> (uuid x \<in> uuid ` set uncached)) \<and>
         set uncached \<subseteq> set typedUuids \<and>
         fst ` set cached \<subseteq> (\<lambda>x. toLowerCase (uuid x)) ` set typedUuids \<and>
         distinct (map fst cached)"
proof -
  let ?cache = "uuidCache (getConfig stored)"
  let ?hit = "\<lambda>k. \<exists>e. ?cache k = Some e \<and> now - cachedAt e < CACHE_TTL_MS"
  from assms have c: "cached = fst (split_loop ?cache now typedUuids ([], []))"
    and u: "uncached = snd (split_loop ?cache now typedUuids ([], []))"
    by (simp_all add: getCachedResults_def)
  have un: "uncached = filter (\<lambda>x. \<not> ?hit (toLowerCase (uuid x))) typedUuids"
    unfolding u split_loop_uncached by simp
  have keys: "k \<in> fst ` set cached \<longleftrightarrow>
      (\<exists>x\<in>set typedUuids. toLowerCase (uuid x) = k) \<and> ?hit k" for k
    unfolding keys_map_of c split_loop_cached by auto
  have a: "\<forall>x\<in>set typedUuids.
            (toLowerCase (uuid x) \<in> fst ` set cached) \<noteq> (uuid x \<in> uuid ` set uncached)"
    unfolding keys un by auto
  have b: "\<forall>x\<in>set typedUuids.
            (toLowerCase (uuid x) \<in> fst ` set cached) \<noteq> (x \<in> set uncached)"
    unfolding keys un by auto
  have l: "\<forall>x\<in>set typedUuids. toLowerCase (uuid x) = uuid x \<longrightarrow>
            (uuid x \<in> fst ` set cached) \<noteq> (uuid x \<in> uuid ` set uncached)"
  proof (intro ballI impI)
    fix x assume x: "x \<in> set typedUuids" and lo: "toLowerCase (uuid x) = uuid x"
    from bspec[OF a x] lo
    show "(uuid x \<in> fst ` set cached) \<noteq> (uuid x \<in> uuid ` set uncached)"
      by simp
  qed
  have s1: "set uncached \<subseteq> set typedUuids"
    unfolding un by auto
  have s2: "fst ` set cached \<subseteq> (\<lambda>x. toLowerCase (uuid x)) ` set typedUuids"
  proof (rule subsetI)
    fix k assume "k \<in> fst ` set cached"
    then have "\<exists>x\<in>set typedUuids. toLowerCase (uuid x) = k"
      unfolding keys by blast
    then show "k \<in> (\<lambda>x. toLowerCase (uuid x)) ` set typedUuids"
      by auto
  qed
  have d: "distinct (map fst cached)"
    unfolding c by (rule split_loop_distinct) simp
  show ?thesis
    by (intro conjI a b l s1 s2 d)
qed

theorem split_hit_iff_fresh_entry_witness:
  "getCachedResults example_storage 86400000 example_request =
     ([(id1, name1)], [\<lparr>type = ''schema'', uuid = id2\<rparr>, \<lparr>type = ''table'', uuid = id3\<rparr>]) \<and>
   (\<exists>entry. uuidCache (getConfig example_storage) (toLowerCase id1) = Some entry \<and>
            86400000 - cachedAt entry < 24 * 60 * 60 * 1000) \<and>
   \<not> (\<exists>entry. uuidCache (getConfig example_storage) (toLowerCase id2) = Some entry \<and>
              86400000 - cachedAt entry < 24 * 60 * 60 * 1000) \<and>
   uuidCache (getConfig example_storage) (toLowerCase id2) = Some \<lparr>data = name2, cachedAt = 0\<rparr> \<and>
   uuidCache (getConfig example_storage) (toLowerCase id3) = None"
proof -
  have e: "getCachedResults example_storage 86400000 example_request =
     ([(id1, name1)], [\<lparr>type = ''schema'', uuid = id2\<rparr>, \<lparr>type = ''table'', uuid = id3\<rparr>])"
    by code_simp
  have m1: "\<lparr>type = ''table'', uuid = id1\<rparr> \<in> set example_request"
    and m2: "\<lparr>type = ''schema'', uuid = id2\<rparr> \<in> set example_request"
    by (simp_all add: example_request_def)
  from split_hit_iff_fresh_entry[OF e m1]
  have h1: "\<exists>entry. uuidCache (getConfig example_storage) (toLowerCase id1) = Some entry \<and>
            86400000 - cachedAt entry < 24 * 60 * 60 * 1000"
    by (simp add: toLowerCase_def id1_def lower_char_def)
  from split_hit_iff_fresh_entry[OF e m2]
  have h2: "\<not> (\<exists>entry. uuidCache (getConfig example_storage) (toLowerCase id2) = Some entry \<and>
              86400000 - cachedAt entry < 24 * 60 * 60 * 1000)"
    by simp
  have c2: "uuidCache (getConfig example_storage) (toLowerCase id2) = Some \<lparr>data = name2, cachedAt = 0\<rparr>"
    by code_simp
  have c3: "uuidCache (getConfig example_storage) (toLowerCase id3) = None"
    by code_simp
  show ?thesis
    by (intro conjI e h1 h2 c2 c3)
qed

theorem split_total_partition_witness:
  "getCachedResults example_storage 86400000 example_request =
     ([(id1, name1)], [\<lparr>type = ''schema'', uuid = id2\<rparr>, \<lparr>type = ''table'', uuid = id3\<rparr>]) \<and>
   toLowerCase id1 \<in> fst ` set [(id1, name1)] \<and>
   id1 \<notin> uuid ` set [\<lparr>type = ''schema'', uuid = id2\<rparr>, \<lparr>type = ''table'', uuid = id3\<rparr>] \<and>
   toLowerCase id3 \<notin> fst ` set [(id1, name1)]"
proof -
  have e: "getCachedResults example_storage 86400000 example_request =
     ([(id1, name1)], [\<lparr>type = ''schema'', uuid = id2\<rparr>, \<lparr>type = ''table'', uuid = id3\<rparr>])"
    by code_simp
  have m1: "\<lparr>type = ''table'', uuid = id1\<rparr> \<in> set example_request"
    and m3: "\<lparr>type = ''table'', uuid = id3\<rparr> \<in> set example_request"
    by (simp_all add: example_request_def)
  have k1: "toLowerCase id1 \<in> fst ` set [(id1, name1)]"
    by code_simp
  from split_total_partition[OF e] m1 k1
  have u1: "id1 \<notin> uuid ` set [\<lparr>type = ''schema'', uuid = id2\<rparr>, \<lparr>type = ''table'', uuid = id3\<rparr>]"
    by fastforce
  from split_total_partition[OF e] m3
  have u3: "toLowerCase id3 \<notin> fst ` set [(id1, name1)]"
    by fastforce
  show ?thesis
    by (intro conjI e k1 u1 u3)
qed

section \<open>The executor\<close>

declare poll.simps [simp del]

lemma submitted_append:
  "submitted \<lparr>script = s, requests = rq @ [r]\<rparr> =
     submitted \<lparr>script = s', requests = rq\<rparr> @ (case statement_of r of None \<Rightarrow> [] | Some sql \<Rightarrow> [sql])"
  by (simp add: submitted_def List.map_filter_def split: option.splits)

lemma fetch_GET_submitted:
  "fetch (GET u t) net = Some (out, net') \<Longrightarrow> submitted net' = submitted net"
  by (auto simp: fetch_def submitted_def List.map_filter_def split: list.splits)

lemma fetch_POST_submitted:
  "fetch (POST u t w sql) net = Some (out, net') \<Longrightarrow> submitted net' = submitted net @ [sql]"
  by (auto simp: fetch_def submitted_def List.map_filter_def split: list.splits)

lemma poll_submitted:
  "poll url token d net = Some (r, net') \<Longrightarrow> submitted net' = submitted net"
proof (induction url token d net arbitrary: r net' rule: poll.induct)
  case (1 url token d net)
  show ?case
  proof (cases "\<exists>st. status d = Some st \<and> (state st = ''PENDING'' \<or> state st = ''RUNNING'')")
    case False
    with "1.prems" show ?thesis
      by (subst (asm) poll.simps) (auto split: option.splits if_splits)
  next
    case True
    then obtain st where st: "status d = Some st" "state st = ''PENDING'' \<or> state st = ''RUNNING''"
      by blast
    from "1.prems" st obtain out net1 where
      f: "fetch (GET (url @ ''/'' @ template (statement_id d)) token) net = Some (out, net1)"
      by (subst (asm) poll.simps) (auto split: option.splits)
    note s1 = fetch_GET_submitted[OF f]
    show ?thesis
    proof (cases "\<exists>resp d'. out = Responded resp \<and> ok resp \<and> body_json resp = Inr d'")
      case False
      with "1.prems" st f have "net' = net1"
        by (subst (asm) poll.simps)
           (auto split: option.splits if_splits fetch_outcome.splits sum.splits)
      with s1 show ?thesis by simp
    next
      case True
      then obtain resp d' where o: "out = Responded resp" "ok resp" "body_json resp = Inr d'"
        by blast
      with "1.prems" st f have "poll url token d' net1 = Some (r, net')"
        by (subst (asm) poll.simps) auto
      from "1.IH"[OF st(1) st(2) f refl o(1) _ o(3) this] o(2) s1
      show ?thesis by simp
    qed
  qed
qed

lemma executeSql_submitted:
  assumes "executeSql wsUrl token warehouse sql net = Some (r, net')"
  shows "submitted net' = submitted net @ [sql]"
proof -
  from assms obtain out net1 where
    f: "fetch (POST (statements_url wsUrl) token warehouse sql) net = Some (out, net1)"
    by (auto simp: executeSql_def Let_def split: option.splits)
  note s1 = fetch_POST_submitted[OF f]
  show ?thesis
  proof (cases "\<exists>resp d. out = Responded resp \<and> ok resp \<and> body_json resp = Inr d")
    case False
    with assms f have "net' = net1"
      by (auto simp: executeSql_def Let_def split: option.splits if_splits fetch_outcome.splits sum.splits)
    with s1 show ?thesis by simp
  next
    case True
    then obtain resp d where o: "out = Responded resp" "ok resp" "body_json resp = Inr d"
      by blast
    with assms f obtain r' where "poll (statements_url wsUrl) token d net1 = Some (r', net')"
      by (auto simp: executeSql_def Let_def split: option.splits sum.splits)
    from poll_submitted[OF this] s1 show ?thesis by simp
  qed
qed

text \<open>A run of the poll loop over responses that are pending until a last one.\<close>

lemma poll_terminal:
  assumes "status d = Some st" "state st \<noteq> ''PENDING''" "state st \<noteq> ''RUNNING''"
  shows "poll url token d net = Some (Inr d, net)"
  using assms by (subst poll.simps) simp

lemma poll_run:
  assumes "\<forall>r\<in>set rs. pending r"
    and "ok fin" "body_json fin = Inr dfin" "status dfin = Some stf"
    and "state stf \<noteq> ''PENDING''" "state stf \<noteq> ''RUNNING''"
    and "status d = Some st" "state st = ''PENDING'' \<or> state st = ''RUNNING''"
  shows "poll url token d \<lparr>script = map Responded (rs @ [fin]) @ rest, requests = rq\<rparr> =
         Some (Inr dfin,
               \<lparr>script = rest,
                requests = rq @ GET (url @ ''/'' @ template (statement_id d)) token
                                # map (poll_of url token) rs\<rparr>)"
  using assms(1,7,8)
proof (induction rs arbitrary: d st rq)
  case Nil
  have "poll url token dfin \<lparr>script = rest, requests = rq @ [GET (url @ ''/'' @ template (statement_id d)) token]\<rparr>
      = Some (Inr dfin, \<lparr>script = rest, requests = rq @ [GET (url @ ''/'' @ template (statement_id d)) token]\<rparr>)"
    by (rule poll_terminal[OF assms(4,5,6)])
  with Nil assms(2,3) show ?case
    by (subst poll.simps) (simp add: fetch_def)
next
  case (Cons r rs)
  from Cons.prems(1) obtain d' st' where r: "ok r" "body_json r = Inr d'" "status d' = Some st'"
    "state st' = ''PENDING'' \<or> state st' = ''RUNNING''"
    by (auto simp: pending_def split: sum.splits option.splits)
  from Cons.prems(1) have rs: "\<forall>r\<in>set rs. pending r" by simp
  have p: "poll_of url token r = GET (url @ ''/'' @ template (statement_id d')) token"
    by (simp add: poll_of_def r(2))
  from Cons.IH[OF rs r(3) r(4), of "rq @ [GET (url @ ''/'' @ template (statement_id d)) token]"]
    Cons.prems(2,3) r(1,2) p
  show ?case
    by (subst poll.simps) (simp add: fetch_def)
qed

lemma executeSql_run:
  assumes "\<forall>r\<in>set pre. pending r"
    and "ok fin" "body_json fin = Inr dfin" "status dfin = Some stf"
    and "state stf \<noteq> ''PENDING''" "state stf \<noteq> ''RUNNING''"
  shows "executeSql wsUrl token warehouse sql
           \<lparr>script = map Responded (pre @ [fin]) @ rest, requests = rq\<rparr> =
         Some (finish dfin,
               \<lparr>script = rest,
                requests = rq @ POST (statements_url wsUrl) token warehouse sql
                                # map (poll_of (statements_url wsUrl) token) pre\<rparr>)"
proof (cases pre)
  case Nil
  have "poll (statements_url wsUrl) token dfin
          \<lparr>script = rest, requests = rq @ [POST (statements_url wsUrl) token warehouse sql]\<rparr>
      = Some (Inr dfin, \<lparr>script = rest, requests = rq @ [POST (statements_url wsUrl) token warehouse sql]\<rparr>)"
    by (rule poll_terminal[OF assms(4,5,6)])
  with Nil assms(2,3) show ?thesis
    by (simp add: executeSql_def Let_def fetch_def)
next
  case (Cons r rs)
  with assms(1) obtain d st where r: "ok r" "body_json r = Inr d" "status d = Some st"
    "state st = ''PENDING'' \<or> state st = ''RUNNING''"
    by (auto simp: pending_def split: sum.splits option.splits)
  from assms(1) Cons have rs: "\<forall>r\<in>set rs. pending r" by simp
  have p: "poll_of (statements_url wsUrl) token r =
      GET (statements_url wsUrl @ ''/'' @ template (statement_id d)) token"
    by (simp add: poll_of_def r(2))
  from poll_run[OF rs assms(2,3,4,5,6) r(3,4),
      of "statements_url wsUrl" token rest "rq @ [POST (statements_url wsUrl) token warehouse sql]"]
    Cons r(1,2) p
  show ?thesis
    by (simp add: executeSql_def Let_def fetch_def)
qed

text \<open>
  Claim C3. When the responses to the submission and to the polls are jobs in state
  \<open>PENDING\<close> or \<open>RUNNING\<close> up to a last response, \<open>executeSql\<close> sends the
  submission and one poll after each of the pending responses, and then: if the last
  state is \<open>SUCCEEDED\<close> it returns the body of the last response, whose \<open>data_array\<close>
  (possibly absent or empty) is the row set; if the last state is \<open>FAILED\<close> it throws
  an error whose message is \<open>SQL failed: \<close> followed by the message of the job's error,
  or by the status as JSON text when there is no such message.
\<close>

theorem executeSql_polls_until_terminal:
  assumes "\<forall>r\<in>set pre. pending r"
    and "ok fin" and "body_json fin = Inr d" and "status d = Some st"
  shows
    "(state st = ''SUCCEEDED'' \<longrightarrow>
        executeSql wsUrl token warehouse sql
          \<lparr>script = map Responded (pre @ [fin]) @ rest, requests = rq\<rparr> =
        Some (Inr d,
              \<lparr>script = rest,
               requests = rq @ POST (statements_url wsUrl) token warehouse sql
                               # map (poll_of (statements_url wsUrl) token) pre\<rparr>)) \<and>
     (state st = ''FAILED'' \<longrightarrow>
        executeSql wsUrl token warehouse sql
          \<lparr>script = map Responded (pre @ [fin]) @ rest, requests = rq\<rparr> =
        Some (Inl (''SQL failed: '' @
                   (case error_message st of
                      None \<Rightarrow> status_json st
                    | Some m \<Rightarrow> if m = [] then status_json st else m)),
              \<lparr>script = rest,
               requests = rq @ POST (statements_url wsUrl) token warehouse sql
                               # map (poll_of (statements_url wsUrl) token) pre\<rparr>))"
proof (intro conjI impI)
  assume s: "state st = ''SUCCEEDED''"
  then have t: "state st \<noteq> ''PENDING''" "state st \<noteq> ''RUNNING''" by simp_all
  from s assms(4) have "finish d = Inr d" by (simp add: finish_def)
  with executeSql_run[OF assms t, of wsUrl token warehouse sql rest rq]
  show "executeSql wsUrl token warehouse sql
          \<lparr>script = map Responded (pre @ [fin]) @ rest, requests = rq\<rparr> =
        Some (Inr d,
              \<lparr>script = rest,
               requests = rq @ POST (statements_url wsUrl) token warehouse sql
                               # map (poll_of (statements_url wsUrl) token) pre\<rparr>)"
    by simp
next
  assume s: "state st = ''FAILED''"
  then have t: "state st \<noteq> ''PENDING''" "state st \<noteq> ''RUNNING''" by simp_all
  from s assms(4) have "finish d = Inl (''SQL failed: '' @
                   (case error_message st of
                      None \<Rightarrow> status_json st
                    | Some m \<Rightarrow> if m = [] then status_json st else m))"
    by (simp add: finish_def)
  with executeSql_run[OF assms t, of wsUrl token warehouse sql rest rq]
  show "executeSql wsUrl token warehouse sql
          \<lparr>script = map Responded (pre @ [fin]) @ rest, requests = rq\<rparr> =
        Some (Inl (''SQL failed: '' @
                   (case error_message st of
                      None \<Rightarrow> status_json st
                    | Some m \<Rightarrow> if m = [] then status_json st else m)),
              \<lparr>script = rest,
               requests = rq @ POST (statements_url wsUrl) token warehouse sql
                               # map (poll_of (statements_url wsUrl) token) pre\<rparr>)"
    by simp
qed

lemma pending_job:
  "pending (job_response ''PENDING'' None None)" "pending (job_response ''RUNNING'' None None)"
  by (simp_all add: pending_def job_response_def job_data_def)

text \<open>
  Two runs: \<open>PENDING\<close>, \<open>RUNNING\<close>, \<open>SUCCEEDED\<close> with rows, and \<open>PENDING\<close>,
  \<open>FAILED\<close> with the message \<open>x\<close>.
\<close>

theorem executeSql_polls_until_terminal_witness:
  "executeSql ''https://dbc.example.com/'' ''tok'' ''wh1'' ''SELECT 1 AS ok''
     \<lparr>script = [Responded (job_response ''PENDING'' None None),
                Responded (job_response ''RUNNING'' None None),
                Responded (job_response ''SUCCEEDED'' None (Some example_rows))],
      requests = []\<rparr> =
   Some (Inr (job_data ''SUCCEEDED'' None (Some example_rows)),
         \<lparr>script = [],
          requests = [POST ''https://dbc.example.com/api/2.0/sql/statements'' ''tok'' ''wh1''
                        ''SELECT 1 AS ok'',
                      GET ''https://dbc.example.com/api/2.0/sql/statements/st-1'' ''tok'',
                      GET ''https://dbc.example.com/api/2.0/sql/statements/st-1'' ''tok'']\<rparr>) \<and>
   executeSql ''https://dbc.example.com/'' ''tok'' ''wh1'' ''SELECT 1 AS ok''
     \<lparr>script = [Responded (job_response ''PENDING'' None None),
                Responded (job_response ''FAILED'' (Some ''x'') None)],
      requests = []\<rparr> =
   Some (Inl ''SQL failed: x'',
         \<lparr>script = [],
          requests = [POST ''https://dbc.example.com/api/2.0/sql/statements'' ''tok'' ''wh1''
                        ''SELECT 1 AS ok'',
                      GET ''https://dbc.example.com/api/2.0/sql/statements/st-1'' ''tok'']\<rparr>)"
proof -
  have u: "statements_url ''https://dbc.example.com/'' = ''https://dbc.example.com/api/2.0/sql/statements''"
    by code_simp
  have p: "poll_of ''https://dbc.example.com/api/2.0/sql/statements'' ''tok'' (job_response s m r) =
      GET ''https://dbc.example.com/api/2.0/sql/statements/st-1'' ''tok''" for s m r
    by (simp add: poll_of_def job_response_def job_data_def)
  have pre1: "\<forall>r\<in>set [job_response ''PENDING'' None None, job_response ''RUNNING'' None None]. pending r"
    using pending_job by simp
  have pre2: "\<forall>r\<in>set [job_response ''PENDING'' None None]. pending r"
    using pending_job by simp
  have a: "ok (job_response s m r)" "body_json (job_response s m r) = Inr (job_data s m r)" for s m r
    by (simp_all add: job_response_def)
  have b1: "status (job_data ''SUCCEEDED'' None (Some example_rows)) =
            Some \<lparr>state = ''SUCCEEDED'', error_message = None,
                  status_json = status_json (the (status (job_data ''SUCCEEDED'' None (Some example_rows))))\<rparr>"
    by (simp add: job_data_def)
  have b2: "status (job_data ''FAILED'' (Some ''x'') None) =
            Some \<lparr>state = ''FAILED'', error_message = Some ''x'',
                  status_json = status_json (the (status (job_data ''FAILED'' (Some ''x'') None)))\<rparr>"
    by (simp add: job_data_def)
  from executeSql_polls_until_terminal[OF pre1 a b1,
      of "''https://dbc.example.com/''" "''tok''" "''wh1''" "''SELECT 1 AS ok''" "[]" "[]"]
  have w1: "executeSql ''https://dbc.example.com/'' ''tok'' ''wh1'' ''SELECT 1 AS ok''
     \<lparr>script = [Responded (job_response ''PENDING'' None None),
                Responded (job_response ''RUNNING'' None None),
                Responded (job_response ''SUCCEEDED'' None (Some example_rows))],
      requests = []\<rparr> =
   Some (Inr (job_data ''SUCCEEDED'' None (Some example_rows)),
         \<lparr>script = [],
          requests = [POST ''https://dbc.example.com/api/2.0/sql/statements'' ''tok'' ''wh1''
                        ''SELECT 1 AS ok'',
                      GET ''https://dbc.example.com/api/2.0/sql/statements/st-1'' ''tok'',
                      GET ''https://dbc.example.com/api/2.0/sql/statements/st-1'' ''tok'']\<rparr>)"
    by (simp add: u p)
  from executeSql_polls_until_terminal[OF pre2 a b2,
      of "''https://dbc.example.com/''" "''tok''" "''wh1''" "''SELECT 1 AS ok''" "[]" "[]"]
  have w2: "executeSql ''https://dbc.example.com/'' ''tok'' ''wh1'' ''SELECT 1 AS ok''
     \<lparr>script = [Responded (job_response ''PENDING'' None None),
                Responded (job_response ''FAILED'' (Some ''x'') None)],
      requests = []\<rparr> =
   Some (Inl ''SQL failed: x'',
         \<lparr>script = [],
          requests = [POST ''https://dbc.example.com/api/2.0/sql/statements'' ''tok'' ''wh1''
                        ''SELECT 1 AS ok'',
                      GET ''https://dbc.example.com/api/2.0/sql/statements/st-1'' ''tok'']\<rparr>)"
    by (simp add: u p)
  from w1 w2 show ?thesis by (rule conjI)
qed

section \<open>Runs on an endpoint that answers every statement\<close>

lemma poll_stop:
  assumes "\<not> (\<exists>st. status d = Some st \<and> (state st = ''PENDING'' \<or> state st = ''RUNNING''))"
  shows "poll url token d net = Some (Inr d, net)"
  using assms by (subst poll.simps) (auto split: option.splits)

lemma terminal_outcome:
  assumes "terminal out"
  shows "\<exists>res. (case out of
           Rejected msg \<Rightarrow> Some (Inl msg, N)
         | Responded r \<Rightarrow>
             if \<not> ok r then Some (Inl (f r), N)
             else (case body_json r of
                     Inl msg \<Rightarrow> Some (Inl msg, N)
                   | Inr d' \<Rightarrow> poll url token d' N)) = Some (res, N)"
proof (cases out)
  case (Rejected msg)
  then show ?thesis by simp
next
  case (Responded r)
  show ?thesis
  proof (cases "ok r")
    case False
    with Responded show ?thesis by simp
  next
    case True
    show ?thesis
    proof (cases "body_json r")
      case (Inl msg)
      with True Responded show ?thesis by simp
    next
      case (Inr d')
      from assms Responded True Inr
      have "\<not> (\<exists>st. status d' = Some st \<and> (state st = ''PENDING'' \<or> state st = ''RUNNING''))"
        by (auto simp: terminal_def pending_def)
      from poll_stop[OF this] True Inr Responded show ?thesis by simp
    qed
  qed
qed

lemma poll_answers:
  assumes "\<forall>r\<in>set rs. pending r" and "terminal out"
    and "status d = Some st" and "state st = ''PENDING'' \<or> state st = ''RUNNING''"
  shows "\<exists>res. poll url token d \<lparr>script = map Responded rs @ out # rest, requests = rq\<rparr> =
           Some (res, \<lparr>script = rest,
                       requests = rq @ GET (url @ ''/'' @ template (statement_id d)) token
                                       # map (poll_of url token) rs\<rparr>)"
  using assms(1,3,4)
proof (induction rs arbitrary: d st rq)
  case Nil
  define N where
    "N = \<lparr>script = rest, requests = rq @ [GET (url @ ''/'' @ template (statement_id d)) token]\<rparr>"
  from terminal_outcome[OF assms(2), of N
      "\<lambda>r. ''SQL poll failed ('' @ decimal (http_status r) @ ''): '' @ body_text r" url token]
  obtain res where t: "(case out of
           Rejected msg \<Rightarrow> Some (Inl msg, N)
         | Responded r \<Rightarrow>
             if \<not> ok r then Some (Inl (''SQL poll failed ('' @ decimal (http_status r) @ ''): '' @ body_text r), N)
             else (case body_json r of
                     Inl msg \<Rightarrow> Some (Inl msg, N)
                   | Inr d' \<Rightarrow> poll url token d' N)) = Some (res, N)"
    by blast
  have f: "fetch (GET (url @ ''/'' @ template (statement_id d)) token)
             \<lparr>script = map Responded [] @ out # rest, requests = rq\<rparr> = Some (out, N)"
    by (simp add: fetch_def N_def)
  have "poll url token d \<lparr>script = map Responded [] @ out # rest, requests = rq\<rparr> =
      (case out of
           Rejected msg \<Rightarrow> Some (Inl msg, N)
         | Responded r \<Rightarrow>
             if \<not> ok r then Some (Inl (''SQL poll failed ('' @ decimal (http_status r) @ ''): '' @ body_text r), N)
             else (case body_json r of
                     Inl msg \<Rightarrow> Some (Inl msg, N)
                   | Inr d' \<Rightarrow> poll url token d' N))"
    using Nil(2,3) by (subst poll.simps) (simp only: f option.case prod.case if_True)
  with t have "poll url token d \<lparr>script = map Responded [] @ out # rest, requests = rq\<rparr> =
           Some (res, N)"
    by simp
  then show ?case by (auto simp: N_def)
next
  case (Cons r rs)
  from Cons.prems(1) obtain d' st' where r: "ok r" "body_json r = Inr d'" "status d' = Some st'"
    "state st' = ''PENDING'' \<or> state st' = ''RUNNING''"
    by (auto simp: pending_def split: sum.splits option.splits)
  from Cons.prems(1) have rs: "\<forall>r\<in>set rs. pending r" by simp
  have p: "poll_of url token r = GET (url @ ''/'' @ template (statement_id d')) token"
    by (simp add: poll_of_def r(2))
  from Cons.IH[OF rs r(3) r(4), of "rq @ [GET (url @ ''/'' @ template (statement_id d)) token]"]
  obtain res where
    "poll url token d' \<lparr>script = map Responded rs @ out # rest,
                         requests = (rq @ [GET (url @ ''/'' @ template (statement_id d)) token])\<rparr> =
     Some (res, \<lparr>script = rest,
                 requests = (rq @ [GET (url @ ''/'' @ template (statement_id d)) token])
                            @ GET (url @ ''/'' @ template (statement_id d')) token
                              # map (poll_of url token) rs\<rparr>)"
    by blast
  with Cons.prems(2,3) r(1,2) p
  have "poll url token d \<lparr>script = map Responded (r # rs) @ out # rest, requests = rq\<rparr> =
     Some (res, \<lparr>script = rest,
                 requests = rq @ GET (url @ ''/'' @ template (statement_id d)) token
                                 # map (poll_of url token) (r # rs)\<rparr>)"
    by (subst poll.simps) (simp add: fetch_def)
  then show ?case by blast
qed

lemma executeSql_answers:
  assumes "\<forall>r\<in>set pre. pending r" and "terminal out"
    and "script net = map Responded pre @ out # rest"
  shows "\<exists>res net'. executeSql wsUrl token warehouse sql net = Some (res, net') \<and> script net' = rest"
proof -
  let ?url = "statements_url wsUrl"
  let ?rq = "requests net @ [POST ?url token warehouse sql]"
  have net: "net = \<lparr>script = map Responded pre @ out # rest, requests = requests net\<rparr>"
    using assms(3) by (cases net) simp
  show ?thesis
  proof (cases pre)
    case Nil
    let ?N = "\<lparr>script = rest, requests = ?rq\<rparr>"
    from terminal_outcome[OF assms(2), of ?N
        "\<lambda>r. ''SQL submit failed ('' @ decimal (http_status r) @ ''): '' @ body_text r" ?url token]
    obtain res where t: "(case out of
           Rejected msg \<Rightarrow> Some (Inl msg, ?N)
         | Responded r \<Rightarrow>
             if \<not> ok r then Some (Inl (''SQL submit failed ('' @ decimal (http_status r) @ ''): '' @ body_text r), ?N)
             else (case body_json r of
                     Inl msg \<Rightarrow> Some (Inl msg, ?N)
                   | Inr d' \<Rightarrow> poll ?url token d' ?N)) = Some (res, ?N)"
      by blast
    have f: "fetch (POST ?url token warehouse sql) net = Some (out, ?N)"
      using assms(3) Nil by (simp add: fetch_def)
    from t f have "\<exists>res'. executeSql wsUrl token warehouse sql net = Some (res', ?N)"
      by (auto simp: executeSql_def Let_def split: fetch_outcome.splits sum.splits if_splits)
    then show ?thesis by auto
  next
    case (Cons r rs)
    with assms(1) obtain d st where r: "ok r" "body_json r = Inr d" "status d = Some st"
      "state st = ''PENDING'' \<or> state st = ''RUNNING''"
      by (auto simp: pending_def split: sum.splits option.splits)
    from assms(1) Cons have rs: "\<forall>r\<in>set rs. pending r" by simp
    let ?M = "\<lparr>script = map Responded rs @ out # rest, requests = ?rq\<rparr>"
    from poll_answers[OF rs assms(2) r(3,4), of ?url token rest ?rq]
    obtain res N where p: "poll ?url token d ?M = Some (res, N)" and s: "script N = rest"
      by auto
    have f: "fetch (POST ?url token warehouse sql) net = Some (Responded r, ?M)"
      using assms(3) Cons by (simp add: fetch_def)
    from f p r(1,2) have "\<exists>res'. executeSql wsUrl token warehouse sql net = Some (res', N)"
      by (cases res) (simp_all add: executeSql_def Let_def)
    with s show ?thesis by blast
  qed
qed

section \<open>The resolver\<close>

lemma resolve_tables_submitted:
  assumes "resolve_tables cfg g results net = Some (res, net')"
  shows "submitted net' = submitted net @ (if g = [] then [] else [table_sql (conditions_of g)])"
proof (cases "g = []")
  case True
  with assms show ?thesis by (simp add: resolve_tables_def)
next
  case False
  with assms obtain r where
    "executeSql (workspaceUrl cfg) (patToken cfg) (warehouseId cfg)
       (table_sql (conditions_of g)) net = Some (r, net')"
    by (auto simp: resolve_tables_def split: option.splits sum.splits)
  from executeSql_submitted[OF this] False show ?thesis by simp
qed

lemma resolve_schemas_submitted:
  "resolve_schemas cfg us results net = Some (res, net') \<Longrightarrow>
   submitted net' = submitted net @ map (\<lambda>u. schema_sql (uuid u)) us"
proof (induction us arbitrary: results net)
  case Nil
  then show ?case by simp
next
  case (Cons u us)
  from Cons.prems obtain r net1 results1 where
    e: "executeSql (workspaceUrl cfg) (patToken cfg) (warehouseId cfg)
          (schema_sql (uuid u)) net = Some (r, net1)"
    and rest: "resolve_schemas cfg us results1 net1 = Some (res, net')"
    by (auto split: option.splits sum.splits)
  from executeSql_submitted[OF e] Cons.IH[OF rest] show ?case by simp
qed

lemma resolve_catalogs_submitted:
  "resolve_catalogs cfg us results net = Some (res, net') \<Longrightarrow>
   submitted net' = submitted net @ map (\<lambda>u. catalog_sql (uuid u)) us"
proof (induction us arbitrary: results net)
  case Nil
  then show ?case by simp
next
  case (Cons u us)
  from Cons.prems obtain r net1 results1 where
    e: "executeSql (workspaceUrl cfg) (patToken cfg) (warehouseId cfg)
          (catalog_sql (uuid u)) net = Some (r, net1)"
    and rest: "resolve_catalogs cfg us results1 net1 = Some (res, net')"
    by (auto split: option.splits sum.splits)
  from executeSql_submitted[OF e] Cons.IH[OF rest] show ?case by simp
qed

lemma groups_empty:
  "validUuids typedUuids = [] \<Longrightarrow> group_statements typedUuids = []"
  by (simp add: group_statements_def tableUuids_def schemaUuids_def catalogUuids_def)

lemma resolveUuids_submitted:
  assumes "resolveUuids typedUuids cfg net = Some (res, net')"
  shows "submitted net' = submitted net @ group_statements typedUuids"
proof (cases "validUuids typedUuids = []")
  case True
  with assms have "net' = net"
    by (auto simp: resolveUuids_def split: if_splits)
  with groups_empty[OF True] show ?thesis by simp
next
  case False
  then have ne: "typedUuids \<noteq> []" by (auto simp: validUuids_def)
  from assms False ne obtain r1 n1 r2 n2 where
    t: "resolve_tables cfg (tableUuids typedUuids) [] net = Some (r1, n1)"
    and s: "resolve_schemas cfg (schemaUuids typedUuids) r1 n1 = Some (r2, n2)"
    and c: "resolve_catalogs cfg (catalogUuids typedUuids) r2 n2 = Some (res, net')"
    by (auto simp: resolveUuids_def split: option.splits)
  from resolve_tables_submitted[OF t] resolve_schemas_submitted[OF s]
    resolve_catalogs_submitted[OF c]
  show ?thesis by (simp add: group_statements_def)
qed

lemma validUuids_idem: "validUuids (validUuids typedUuids) = validUuids typedUuids"
  by (simp add: validUuids_def)

lemma groups_validUuids:
  "tableUuids (validUuids typedUuids) = tableUuids typedUuids"
  "schemaUuids (validUuids typedUuids) = schemaUuids typedUuids"
  "catalogUuids (validUuids typedUuids) = catalogUuids typedUuids"
  by (simp_all add: tableUuids_def schemaUuids_def catalogUuids_def validUuids_idem)

lemma resolveUuids_validUuids:
  "resolveUuids (validUuids typedUuids) cfg net = resolveUuids typedUuids cfg net"
proof (cases "validUuids typedUuids = []")
  case True
  then show ?thesis by (simp add: resolveUuids_def)
next
  case False
  then have "typedUuids \<noteq> []" by (auto simp: validUuids_def)
  with False show ?thesis
    unfolding resolveUuids_def groups_validUuids validUuids_idem by simp
qed

text \<open>The shape of a token that matches the pattern.\<close>

lemma match_hex_shape:
  "match_hex n s = Some r \<Longrightarrow> \<exists>p. s = p @ r \<and> length p = n \<and> (\<forall>c\<in>set p. is_hex c)"
proof (induction n s rule: match_hex.induct)
  case (1 s)
  then show ?case by simp
next
  case (2 n)
  then show ?case by simp
next
  case (3 n c cs)
  from "3.prems" have h: "is_hex c" and m: "match_hex n cs = Some r"
    by (auto split: if_splits)
  from "3.IH"[OF h m] obtain p where "cs = p @ r" "length p = n" "\<forall>c\<in>set p. is_hex c"
    by blast
  with h have "c # cs = (c # p) @ r \<and> length (c # p) = Suc n \<and> (\<forall>x\<in>set (c # p). is_hex x)"
    by simp
  then show ?case by blast
qed

lemma match_dash_shape: "match_dash s = Some r \<Longrightarrow> s = CHR ''-'' # r"
  by (cases s) (auto split: if_splits)

lemma UUID_RE_test_shape:
  assumes "UUID_RE_test s"
  shows "length s = 36 \<and> (\<forall>c\<in>set s. is_hex c \<or> c = CHR ''-'')"
proof -
  from assms obtain s1 where m1: "match_hex 8 s = Some s1"
    and t1: "(case match_dash s1 of None \<Rightarrow> False | Some s2 \<Rightarrow>
      case match_hex 4 s2 of None \<Rightarrow> False | Some s3 \<Rightarrow>
      case match_dash s3 of None \<Rightarrow> False | Some s4 \<Rightarrow>
      case match_hex 4 s4 of None \<Rightarrow> False | Some s5 \<Rightarrow>
      case match_dash s5 of None \<Rightarrow> False | Some s6 \<Rightarrow>
      case match_hex 4 s6 of None \<Rightarrow> False | Some s7 \<Rightarrow>
      case match_dash s7 of None \<Rightarrow> False | Some s8 \<Rightarrow>
      case match_hex 12 s8 of None \<Rightarrow> False | Some s9 \<Rightarrow> s9 = [])"
    unfolding UUID_RE_test_def by (cases "match_hex 8 s") simp_all
  from t1 obtain s2 where m2: "match_dash s1 = Some s2"
    and t2: "(case match_hex 4 s2 of None \<Rightarrow> False | Some s3 \<Rightarrow>
      case match_dash s3 of None \<Rightarrow> False | Some s4 \<Rightarrow>
      case match_hex 4 s4 of None \<Rightarrow> False | Some s5 \<Rightarrow>
      case match_dash s5 of None \<Rightarrow> False | Some s6 \<Rightarrow>
      case match_hex 4 s6 of None \<Rightarrow> False | Some s7 \<Rightarrow>
      case match_dash s7 of None \<Rightarrow> False | Some s8 \<Rightarrow>
      case match_hex 12 s8 of None \<Rightarrow> False | Some s9 \<Rightarrow> s9 = [])"
    by (cases "match_dash s1") simp_all
  from t2 obtain s3 where m3: "match_hex 4 s2 = Some s3"
    and t3: "(case match_dash s3 of None \<Rightarrow> False | Some s4 \<Rightarrow>
      case match_hex 4 s4 of None \<Rightarrow> False | Some s5 \<Rightarrow>
      case match_dash s5 of None \<Rightarrow> False | Some s6 \<Rightarrow>
      case match_hex 4 s6 of None \<Rightarrow> False | Some s7 \<Rightarrow>
      case match_dash s7 of None \<Rightarrow> False | Some s8 \<Rightarrow>
      case match_hex 12 s8 of None \<Rightarrow> False | Some s9 \<Rightarrow> s9 = [])"
    by (cases "match_hex 4 s2") simp_all
  from t3 obtain s4 where m4: "match_dash s3 = Some s4"
    and t4: "(case match_hex 4 s4 of None \<Rightarrow> False | Some s5 \<Rightarrow>
      case match_dash s5 of None \<Rightarrow> False | Some s6 \<Rightarrow>
      case match_hex 4 s6 of None \<Rightarrow> False | Some s7 \<Rightarrow>
      case match_dash s7 of None \<Rightarrow> False | Some s8 \<Rightarrow>
      case match_hex 12 s8 of None \<Rightarrow> False | Some s9 \<Rightarrow> s9 = [])"
    by (cases "match_dash s3") simp_all
  from t4 obtain s5 where m5: "match_hex 4 s4 = Some s5"
    and t5: "(case match_dash s5 of None \<Rightarrow> False | Some s6 \<Rightarrow>
      case match_hex 4 s6 of None \<Rightarrow> False | Some s7 \<Rightarrow>
      case match_dash s7 of None \<Rightarrow> False | Some s8 \<Rightarrow>
      case match_hex 12 s8 of None \<Rightarrow> False | Some s9 \<Rightarrow> s9 = [])"
    by (cases "match_hex 4 s4") simp_all
  from t5 obtain s6 where m6: "match_dash s5 = Some s6"
    and t6: "(case match_hex 4 s6 of None \<Rightarrow> False | Some s7 \<Rightarrow>
      case match_dash s7 of None \<Rightarrow> False | Some s8 \<Rightarrow>
      case match_hex 12 s8 of None \<Rightarrow> False | Some s9 \<Rightarrow> s9 = [])"
    by (cases "match_dash s5") simp_all
  from t6 obtain s7 where m7: "match_hex 4 s6 = Some s7"
    and t7: "(case match_dash s7 of None \<Rightarrow> False | Some s8 \<Rightarrow>
      case match_hex 12 s8 of None \<Rightarrow> False | Some s9 \<Rightarrow> s9 = [])"
    by (cases "match_hex 4 s6") simp_all
  from t7 obtain s8 where m8: "match_dash s7 = Some s8"
    and t8: "(case match_hex 12 s8 of None \<Rightarrow> False | Some s9 \<Rightarrow> s9 = [])"
    by (cases "match_dash s7") simp_all
  from t8 have m9: "match_hex 12 s8 = Some []"
    by (cases "match_hex 12 s8") simp_all
  from match_hex_shape[OF m1] obtain p1 where
    p1: "s = p1 @ s1" "length p1 = 8" "\<forall>c\<in>set p1. is_hex c" by blast
  from match_hex_shape[OF m3] obtain p2 where
    p2: "s2 = p2 @ s3" "length p2 = 4" "\<forall>c\<in>set p2. is_hex c" by blast
  from match_hex_shape[OF m5] obtain p3 where
    p3: "s4 = p3 @ s5" "length p3 = 4" "\<forall>c\<in>set p3. is_hex c" by blast
  from match_hex_shape[OF m7] obtain p4 where
    p4: "s6 = p4 @ s7" "length p4 = 4" "\<forall>c\<in>set p4. is_hex c" by blast
  from match_hex_shape[OF m9] obtain p5 where
    p5: "s8 = p5 @ []" "length p5 = 12" "\<forall>c\<in>set p5. is_hex c" by blast
  have s: "s = p1 @ CHR ''-'' # p2 @ CHR ''-'' # p3 @ CHR ''-'' # p4 @ CHR ''-'' # p5"
    using p1(1) p2(1) p3(1) p4(1) p5(1)
      match_dash_shape[OF m2] match_dash_shape[OF m4] match_dash_shape[OF m6]
      match_dash_shape[OF m8]
    by simp
  have len: "length s = 36"
    unfolding s using p1(2) p2(2) p3(2) p4(2) p5(2) by simp
  have chars: "\<forall>c\<in>set s. is_hex c \<or> c = CHR ''-''"
    unfolding s using p1(3) p2(3) p3(3) p4(3) p5(3) by auto
  from len chars show ?thesis by (rule conjI)
qed


lemma lower_char_hex_all: "\<forall>c\<in>set ''0123456789abcdef-''. lower_char c = c"
  by code_simp

lemma lower_char_hex: "is_hex c \<or> c = CHR ''-'' \<Longrightarrow> lower_char c = c"
proof -
  assume "is_hex c \<or> c = CHR ''-''"
  then have "c \<in> set ''0123456789abcdef-''"
    unfolding is_hex_def by auto
  with lower_char_hex_all show ?thesis by blast
qed

lemma UUID_RE_test_lower: "UUID_RE_test s \<Longrightarrow> toLowerCase s = s"
  using UUID_RE_test_shape[of s] by (simp add: toLowerCase_def map_idI lower_char_hex)

text \<open>The keys of the results.\<close>

lemma keys_update: "fst ` set (AList.update k v al) = insert k (fst ` set al)"
  by (simp add: dom_update[symmetric, unfolded dom_map_of_conv_image_fst] dom_map_of_conv_image_fst[symmetric] update_conv')

lemma resolve_schemas_keys:
  "resolve_schemas cfg us results net = Some (res, net') \<Longrightarrow>
   fst ` set res \<subseteq> fst ` set results \<union> uuid ` set us"
proof (induction us arbitrary: results net)
  case Nil
  then show ?case by simp
next
  case (Cons u us)
  from Cons.prems obtain results1 net1 where
    rest: "resolve_schemas cfg us results1 net1 = Some (res, net')"
    and k: "results1 = results \<or> (\<exists>v. results1 = AList.update (uuid u) v results)"
    by (fastforce split: option.splits sum.splits list.splits)
  from k have "fst ` set results1 \<subseteq> insert (uuid u) (fst ` set results)"
    by (elim disjE exE) (simp_all add: keys_update subset_insertI)
  with Cons.IH[OF rest] show ?case by auto
qed

lemma resolve_catalogs_keys:
  "resolve_catalogs cfg us results net = Some (res, net') \<Longrightarrow>
   fst ` set res \<subseteq> fst ` set results \<union> uuid ` set us"
proof (induction us arbitrary: results net)
  case Nil
  then show ?case by simp
next
  case (Cons u us)
  from Cons.prems obtain results1 net1 where
    rest: "resolve_catalogs cfg us results1 net1 = Some (res, net')"
    and k: "results1 = results \<or> (\<exists>v. results1 = AList.update (uuid u) v results)"
    by (fastforce split: option.splits sum.splits list.splits)
  from k have "fst ` set results1 \<subseteq> insert (uuid u) (fst ` set results)"
    by (elim disjE exE) (simp_all add: keys_update subset_insertI)
  with Cons.IH[OF rest] show ?case by auto
qed

lemma table_rows_lower:
  "\<forall>k\<in>fst ` set results. toLowerCase k = k \<Longrightarrow>
   \<forall>k\<in>fst ` set (table_rows rows results). toLowerCase k = k"
proof (induction rows arbitrary: results)
  case Nil
  then show ?case by simp
next
  case (Cons row rows)
  show ?case
  proof (cases "cell row 3")
    case (JString subDir)
    have "\<forall>k\<in>fst ` set (AList.update (toLowerCase (remove_first ''tables/'' subDir))
               \<lparr>type = ''table'',
                fullName = JString (template (cell row 0) @ ''.'' @ template (cell row 1)
                                    @ ''.'' @ template (cell row 2))\<rparr>
               results). toLowerCase k = k"
      using Cons.prems by (simp add: keys_update toLowerCase_idem)
    from Cons.IH[OF this] JString show ?thesis by simp
  qed (use Cons.prems in simp_all)
qed

lemma group_members:
  "u \<in> set (tableUuids typedUuids) \<Longrightarrow> u \<in> set typedUuids \<and> UUID_RE_test (uuid u)"
  "u \<in> set (schemaUuids typedUuids) \<Longrightarrow> u \<in> set typedUuids \<and> UUID_RE_test (uuid u)"
  "u \<in> set (catalogUuids typedUuids) \<Longrightarrow> u \<in> set typedUuids \<and> UUID_RE_test (uuid u)"
  by (simp_all add: tableUuids_def schemaUuids_def catalogUuids_def validUuids_def)

lemma group_statements_valid:
  assumes "sql \<in> set (group_statements typedUuids)"
  shows "(\<exists>g. g \<noteq> [] \<and> (\<forall>u\<in>set g. u \<in> set typedUuids \<and> UUID_RE_test (uuid u)) \<and>
              sql = table_sql (conditions_of g)) \<or>
         (\<exists>u\<in>set typedUuids. UUID_RE_test (uuid u) \<and>
              (sql = schema_sql (uuid u) \<or> sql = catalog_sql (uuid u)))"
proof -
  from assms consider
    (t) "tableUuids typedUuids \<noteq> []" "sql = table_sql (conditions_of (tableUuids typedUuids))"
    | (s) u where "u \<in> set (schemaUuids typedUuids)" "sql = schema_sql (uuid u)"
    | (c) u where "u \<in> set (catalogUuids typedUuids)" "sql = catalog_sql (uuid u)"
    by (auto simp: group_statements_def split: if_splits)
  then show ?thesis
  proof cases
    case t
    with group_members(1)[of _ typedUuids] show ?thesis by blast
  next
    case s
    with group_members(2)[of u typedUuids] show ?thesis by blast
  next
    case c
    with group_members(3)[of u typedUuids] show ?thesis by blast
  qed
qed

lemma is_hex_chars: "is_hex c \<or> c = CHR ''-'' \<Longrightarrow> c \<in> set ''0123456789abcdef-''"
  unfolding is_hex_def by auto

lemma mixed_run:
  "map_option (\<lambda>(r, n). (r, script n, submitted n))
     (resolveUuids mixed_request (getConfig example_storage) mixed_network) =
   Some ([(id3, \<lparr>type = ''table'', fullName = JString ''main.sales.orders''\<rparr>)], [],
         [table_sql ([CHR 0x27] @ ''tables/'' @ id3 @ [CHR 0x27]), schema_sql id2, catalog_sql id1])"
  by code_simp

text \<open>
  Claim C7. \<open>resolveUuids\<close> drops every token that does not match the pattern before
  it builds a statement: it does on the whole list exactly what it does on the list of
  the matching identifiers, every statement it submits is one of the three templates
  filled with matching identifiers of the input, and a matching identifier is 36
  characters of lower-case hexadecimal digits and dashes. So no statement is built from
  a token that does not match.
\<close>

theorem resolver_drops_invalid_tokens:
  assumes "resolveUuids typedUuids cfg net = Some (results, net')"
  shows "resolveUuids (filter (\<lambda>u. UUID_RE_test (uuid u)) typedUuids) cfg net = Some (results, net') \<and>
         (\<exists>new. submitted net' = submitted net @ new \<and>
            (\<forall>sql\<in>set new.
               (\<exists>g. g \<noteq> [] \<and> (\<forall>u\<in>set g. u \<in> set typedUuids \<and> UUID_RE_test (uuid u)) \<and>
                    sql = table_sql (conditions_of g)) \<or>
               (\<exists>u\<in>set typedUuids. UUID_RE_test (uuid u) \<and>
                    (sql = schema_sql (uuid u) \<or> sql = catalog_sql (uuid u))))) \<and>
         (\<forall>u\<in>set typedUuids. UUID_RE_test (uuid u) \<longrightarrow>
            length (uuid u) = 36 \<and> (\<forall>c\<in>set (uuid u). c \<in> set ''0123456789abcdef-''))"
proof -
  have a: "resolveUuids (filter (\<lambda>u. UUID_RE_test (uuid u)) typedUuids) cfg net = Some (results, net')"
    using assms resolveUuids_validUuids[of typedUuids cfg net] by (simp add: validUuids_def)
  have b: "\<exists>new. submitted net' = submitted net @ new \<and>
            (\<forall>sql\<in>set new.
               (\<exists>g. g \<noteq> [] \<and> (\<forall>u\<in>set g. u \<in> set typedUuids \<and> UUID_RE_test (uuid u)) \<and>
                    sql = table_sql (conditions_of g)) \<or>
               (\<exists>u\<in>set typedUuids. UUID_RE_test (uuid u) \<and>
                    (sql = schema_sql (uuid u) \<or> sql = catalog_sql (uuid u))))"
    using resolveUuids_submitted[OF assms] group_statements_valid[of _ typedUuids] by blast
  have c: "\<forall>u\<in>set typedUuids. UUID_RE_test (uuid u) \<longrightarrow>
            length (uuid u) = 36 \<and> (\<forall>c\<in>set (uuid u). c \<in> set ''0123456789abcdef-'')"
    using UUID_RE_test_shape is_hex_chars by blast
  show ?thesis
    by (intro conjI a b c)
qed

text \<open>
  On the mixed request the token with a quote is dropped: the three statements submitted
  are those of the three identifiers.
\<close>

theorem resolver_drops_invalid_tokens_witness:
  "\<exists>results net'.
     resolveUuids mixed_request (getConfig example_storage) mixed_network = Some (results, net') \<and>
     resolveUuids (filter (\<lambda>u. UUID_RE_test (uuid u)) mixed_request) (getConfig example_storage)
       mixed_network = Some (results, net') \<and>
     submitted net' =
       [table_sql ([CHR 0x27] @ ''tables/'' @ id3 @ [CHR 0x27]), schema_sql id2, catalog_sql id1] \<and>
     \<lparr>type = ''table'', uuid = bad_id\<rparr> \<in> set mixed_request \<and>
     \<not> UUID_RE_test bad_id"
proof -
  from mixed_run obtain results net' where
    e: "resolveUuids mixed_request (getConfig example_storage) mixed_network = Some (results, net')"
    and s: "submitted net' =
       [table_sql ([CHR 0x27] @ ''tables/'' @ id3 @ [CHR 0x27]), schema_sql id2, catalog_sql id1]"
    by (auto simp: map_option_case split: option.splits)
  have m: "\<lparr>type = ''table'', uuid = bad_id\<rparr> \<in> set mixed_request"
    by (simp add: mixed_request_def)
  have b: "\<not> UUID_RE_test bad_id"
    by code_simp
  from resolver_drops_invalid_tokens[OF e]
  have "resolveUuids (filter (\<lambda>u. UUID_RE_test (uuid u)) mixed_request) (getConfig example_storage)
       mixed_network = Some (results, net')"
    by blast
  with e s m b show ?thesis by blast
qed

text \<open>Every key of the results is lower-case.\<close>

lemma resolve_tables_lower:
  assumes "resolve_tables cfg g [] net = Some (res, net')"
  shows "\<forall>k\<in>fst ` set res. toLowerCase k = k"
proof -
  have e: "\<forall>k\<in>fst ` set ([] :: (string \<times> resolved_name) list). toLowerCase k = k"
    by simp
  from assms have "res = [] \<or> (\<exists>rows. res = table_rows rows [])"
    by (auto simp: resolve_tables_def split: if_splits option.splits sum.splits)
  then show ?thesis
  proof
    assume "res = []"
    then show ?thesis by simp
  next
    assume "\<exists>rows. res = table_rows rows []"
    then obtain rows where "res = table_rows rows []" by blast
    with table_rows_lower[OF e, of rows] show ?thesis by simp
  qed
qed

lemma resolveUuids_keys_lower:
  assumes "resolveUuids typedUuids cfg net = Some (res, net')"
  shows "\<forall>k\<in>fst ` set res. toLowerCase k = k"
proof (cases "validUuids typedUuids = []")
  case True
  with assms have "res = []"
    by (auto simp: resolveUuids_def split: if_splits)
  then show ?thesis by simp
next
  case False
  then have ne: "typedUuids \<noteq> []" by (auto simp: validUuids_def)
  from assms False ne obtain r1 n1 r2 n2 where
    t: "resolve_tables cfg (tableUuids typedUuids) [] net = Some (r1, n1)"
    and s: "resolve_schemas cfg (schemaUuids typedUuids) r1 n1 = Some (r2, n2)"
    and c: "resolve_catalogs cfg (catalogUuids typedUuids) r2 n2 = Some (res, net')"
    by (auto simp: resolveUuids_def split: option.splits)
  show ?thesis
  proof
    fix k assume "k \<in> fst ` set res"
    with resolve_catalogs_keys[OF c] resolve_schemas_keys[OF s]
    consider (t) "k \<in> fst ` set r1"
      | (s) "k \<in> uuid ` set (schemaUuids typedUuids)"
      | (c) "k \<in> uuid ` set (catalogUuids typedUuids)"
      by blast
    then show "toLowerCase k = k"
    proof cases
      case t
      with resolve_tables_lower[OF \<open>resolve_tables cfg (tableUuids typedUuids) [] net = Some (r1, n1)\<close>]
      show ?thesis by blast
    next
      case s
      then obtain u where "u \<in> set (schemaUuids typedUuids)" "uuid u = k" by auto
      with group_members(2)[of u typedUuids] UUID_RE_test_lower[of k] show ?thesis by simp
    next
      case c
      then obtain u where "u \<in> set (catalogUuids typedUuids)" "uuid u = k" by auto
      with group_members(3)[of u typedUuids] UUID_RE_test_lower[of k] show ?thesis by simp
    qed
  qed
qed

text \<open>
  Merge followed by split, for an object whose keys are lower-case: \<open>updateCache\<close>
  stores each entry under its key as it is, and \<open>getCachedResults\<close> looks the
  lower-cased token up.
\<close>

lemma merge_then_split_lower:
  assumes low: "\<forall>k\<in>fst ` set fresh. toLowerCase k = k"
    and ids: "uuid ` set ids = fst ` set fresh"
    and ttl: "t1 - t0 < CACHE_TTL_MS"
    and split: "getCachedResults (updateCache fresh t0 stored) t1 ids = (cached, uncached)"
  shows "uncached = [] \<and> fst ` set cached = fst ` set fresh \<and>
         (\<forall>k\<in>fst ` set fresh. map_of cached k = map_of fresh k)"
proof -
  let ?cache = "uuidCache (getConfig (updateCache fresh t0 stored))"
  from split have c: "cached = fst (split_loop ?cache t1 ids ([], []))"
    and u: "uncached = snd (split_loop ?cache t1 ids ([], []))"
    by (simp_all add: getCachedResults_def)
  have entry: "\<exists>v. map_of fresh k = Some v \<and> ?cache k = Some \<lparr>data = v, cachedAt = t0\<rparr>"
    if "k \<in> fst ` set fresh" for k
  proof -
    from that obtain v where "map_of fresh k = Some v"
      unfolding keys_map_of by blast
    then show ?thesis by (simp add: uuidCache_updateCache)
  qed
  have hit: "\<exists>e. ?cache (toLowerCase (uuid x)) = Some e \<and> t1 - cachedAt e < CACHE_TTL_MS"
    if "x \<in> set ids" for x
  proof -
    from that ids have k: "uuid x \<in> fst ` set fresh" by blast
    with low have "toLowerCase (uuid x) = uuid x" by blast
    with entry[OF k] ttl show ?thesis by auto
  qed
  have a: "uncached = []"
    unfolding u split_loop_uncached using hit by (simp add: filter_empty_conv)
  have m: "map_of cached k = map_of fresh k" if "k \<in> fst ` set fresh" for k
  proof -
    from that ids obtain x where x: "x \<in> set ids" "uuid x = k" by (metis imageE)
    from low that have lk: "toLowerCase k = k" by blast
    from x lk have "\<exists>x\<in>set ids. toLowerCase (uuid x) = k \<and>
           (\<exists>e. ?cache k = Some e \<and> t1 - cachedAt e < CACHE_TTL_MS)"
      using hit[OF x(1)] by auto
    then have "map_of cached k = map_option data (?cache k)"
      unfolding c split_loop_cached by simp
    with entry[OF that] show ?thesis by auto
  qed
  have b: "fst ` set cached = fst ` set fresh"
  proof (rule set_eqI)
    fix k
    show "k \<in> fst ` set cached \<longleftrightarrow> k \<in> fst ` set fresh"
    proof
      assume "k \<in> fst ` set cached"
      then have "\<exists>x\<in>set ids. toLowerCase (uuid x) = k"
        unfolding keys_map_of c split_loop_cached by (auto split: if_splits)
      then obtain x where x: "x \<in> set ids" "toLowerCase (uuid x) = k" by blast
      from x(1) ids have kx: "uuid x \<in> fst ` set fresh" by blast
      with low have "toLowerCase (uuid x) = uuid x" by blast
      with x(2) kx show "k \<in> fst ` set fresh" by simp
    next
      assume k: "k \<in> fst ` set fresh"
      from m[OF k] k show "k \<in> fst ` set cached"
        unfolding keys_map_of by simp
    qed
  qed
  from a b m show ?thesis by blast
qed

text \<open>
  Claim C5. For every fresh result object, that is every object \<open>resolveUuids\<close>
  returns, which is what the lookup passes to \<open>updateCache\<close>: \<open>updateCache\<close> followed
  by \<open>getCachedResults\<close> on exactly the identifiers of that object, at any time less
  than the time to live after the merge, gives every one of them as a hit, with its
  fresh value, and no miss.
\<close>

theorem merge_then_split_all_hits:
  assumes fresh: "resolveUuids typedUuids cfg net = Some (fresh, net')"
    and ids: "uuid ` set ids = fst ` set fresh"
    and ttl: "t1 - t0 < CACHE_TTL_MS"
    and split: "getCachedResults (updateCache fresh t0 stored) t1 ids = (cached, uncached)"
  shows "uncached = [] \<and> fst ` set cached = fst ` set fresh \<and>
         (\<forall>k\<in>fst ` set fresh. map_of cached k = map_of fresh k)"
  using merge_then_split_lower[OF resolveUuids_keys_lower[OF fresh] ids ttl split] .

text \<open>
  The object resolved from the mixed request holds the table identifier; merged at time
  1000 it is a hit at time 2000.
\<close>

theorem merge_then_split_all_hits_witness:
  "\<exists>fresh net' cached.
     resolveUuids mixed_request (getConfig example_storage) mixed_network = Some (fresh, net') \<and>
     map fst fresh = [id3] \<and>
     getCachedResults (updateCache fresh 1000 example_storage) 2000
       [\<lparr>type = ''table'', uuid = id3\<rparr>] = (cached, []) \<and>
     fst ` set cached = {id3}"
proof -
  from mixed_run obtain fresh net' where
    r: "resolveUuids mixed_request (getConfig example_storage) mixed_network = Some (fresh, net')"
    and f: "fresh = [(id3, \<lparr>type = ''table'', fullName = JString ''main.sales.orders''\<rparr>)]"
    by (auto simp: map_option_case split: option.splits)
  obtain cached uncached where
    e: "getCachedResults (updateCache fresh 1000 example_storage) 2000
          [\<lparr>type = ''table'', uuid = id3\<rparr>] = (cached, uncached)"
    by (cases "getCachedResults (updateCache fresh 1000 example_storage) 2000
          [\<lparr>type = ''table'', uuid = id3\<rparr>]")
  have ids: "uuid ` set [\<lparr>type = ''table'', uuid = id3\<rparr>] = fst ` set fresh"
    by (simp add: f)
  have ttl: "(2000 :: int) - 1000 < CACHE_TTL_MS"
    by (simp add: CACHE_TTL_MS_def)
  from merge_then_split_all_hits[OF r ids ttl e]
  have "uncached = []" "fst ` set cached = {id3}"
    by (simp_all add: f)
  with r e f show ?thesis by auto
qed

text \<open>The resolver returns on an endpoint that answers every statement.\<close>

lemma answers_simps:
  "answers [] = []"
  "answers ((pre, out) # blocks) = map Responded pre @ out # answers blocks"
  by (simp_all add: answers_def)

lemma answers_append: "answers (xs @ ys) = answers xs @ answers ys"
  by (simp add: answers_def)

lemma answered_simps:
  "answered []"
  "answered ((pre, out) # blocks) \<longleftrightarrow> (\<forall>r\<in>set pre. pending r) \<and> terminal out \<and> answered blocks"
  by (simp_all add: answered_def list_all_iff)

lemma answered_append: "answered (xs @ ys) \<longleftrightarrow> answered xs \<and> answered ys"
  by (simp add: answered_def)

lemma resolve_tables_answers:
  assumes "length blocks = (if g = [] then 0 else 1)" and "answered blocks"
    and "script net = answers blocks @ rest"
  shows "\<exists>res net'. resolve_tables cfg g results net = Some (res, net') \<and> script net' = rest"
proof (cases "g = []")
  case True
  with assms show ?thesis by (simp add: resolve_tables_def answers_simps)
next
  case False
  with assms(1) obtain pre out where b: "blocks = [(pre, out)]"
    by (cases blocks) (auto split: if_splits)
  from assms(2,3) b have "\<forall>r\<in>set pre. pending r" "terminal out"
    "script net = map Responded pre @ out # rest"
    by (simp_all add: answered_simps answers_simps)
  from executeSql_answers[OF this, of "workspaceUrl cfg" "patToken cfg" "warehouseId cfg"
      "table_sql (conditions_of g)"]
  obtain res net' where
    "executeSql (workspaceUrl cfg) (patToken cfg) (warehouseId cfg)
       (table_sql (conditions_of g)) net = Some (res, net')" "script net' = rest"
    by blast
  with False show ?thesis
    by (cases res) (simp_all add: resolve_tables_def)
qed

lemma resolve_schemas_answers:
  "length blocks = length us \<Longrightarrow> answered blocks \<Longrightarrow> script net = answers blocks @ rest \<Longrightarrow>
   \<exists>res net'. resolve_schemas cfg us results net = Some (res, net') \<and> script net' = rest"
proof (induction us arbitrary: blocks results net)
  case Nil
  then show ?case by (simp add: answers_simps)
next
  case (Cons u us)
  from Cons.prems(1) obtain pre out bs where b: "blocks = (pre, out) # bs" "length bs = length us"
    by (cases blocks) auto
  from Cons.prems(2,3) b have p: "\<forall>r\<in>set pre. pending r" "terminal out"
    "script net = map Responded pre @ out # (answers bs @ rest)" and a: "answered bs"
    by (simp_all add: answered_simps answers_simps)
  from executeSql_answers[OF p, of "workspaceUrl cfg" "patToken cfg" "warehouseId cfg"
      "schema_sql (uuid u)"]
  obtain r1 n1 where
    e: "executeSql (workspaceUrl cfg) (patToken cfg) (warehouseId cfg)
       (schema_sql (uuid u)) net = Some (r1, n1)" and s: "script n1 = answers bs @ rest"
    by blast
  from e obtain results1 where
    "resolve_schemas cfg (u # us) results net = resolve_schemas cfg us results1 n1"
    by (cases r1) (auto split: option.splits list.splits)
  with Cons.IH[OF b(2) a s, of results1] show ?case by simp
qed

lemma resolve_catalogs_answers:
  "length blocks = length us \<Longrightarrow> answered blocks \<Longrightarrow> script net = answers blocks @ rest \<Longrightarrow>
   \<exists>res net'. resolve_catalogs cfg us results net = Some (res, net') \<and> script net' = rest"
proof (induction us arbitrary: blocks results net)
  case Nil
  then show ?case by (simp add: answers_simps)
next
  case (Cons u us)
  from Cons.prems(1) obtain pre out bs where b: "blocks = (pre, out) # bs" "length bs = length us"
    by (cases blocks) auto
  from Cons.prems(2,3) b have p: "\<forall>r\<in>set pre. pending r" "terminal out"
    "script net = map Responded pre @ out # (answers bs @ rest)" and a: "answered bs"
    by (simp_all add: answered_simps answers_simps)
  from executeSql_answers[OF p, of "workspaceUrl cfg" "patToken cfg" "warehouseId cfg"
      "catalog_sql (uuid u)"]
  obtain r1 n1 where
    e: "executeSql (workspaceUrl cfg) (patToken cfg) (warehouseId cfg)
       (catalog_sql (uuid u)) net = Some (r1, n1)" and s: "script n1 = answers bs @ rest"
    by blast
  from e obtain results1 where
    "resolve_catalogs cfg (u # us) results net = resolve_catalogs cfg us results1 n1"
    by (cases r1) (auto split: option.splits list.splits)
  with Cons.IH[OF b(2) a s, of results1] show ?case by simp
qed

lemma resolveUuids_answers:
  assumes len: "length blocks = (if tableUuids typedUuids = [] then 0 else 1)
                  + length (schemaUuids typedUuids) + length (catalogUuids typedUuids)"
    and ans: "answered blocks"
    and scr: "script net = answers blocks @ rest"
  shows "\<exists>results net'. resolveUuids typedUuids cfg net = Some (results, net') \<and> script net' = rest"
proof (cases "validUuids typedUuids = []")
  case True
  then have "tableUuids typedUuids = []" "schemaUuids typedUuids = []" "catalogUuids typedUuids = []"
    by (simp_all add: tableUuids_def schemaUuids_def catalogUuids_def)
  with len have "blocks = []" by simp
  with scr True show ?thesis
    by (simp add: resolveUuids_def answers_simps)
next
  case False
  then have ne: "typedUuids \<noteq> []" by (auto simp: validUuids_def)
  define a where "a = (if tableUuids typedUuids = [] then 0 else 1 :: nat)"
  define b where "b = length (schemaUuids typedUuids)"
  define tb where "tb = take a blocks"
  define sb where "sb = take b (drop a blocks)"
  define cb where "cb = drop (a + b) blocks"
  have blocks: "blocks = tb @ sb @ cb"
    unfolding tb_def sb_def cb_def by (metis append_take_drop_id drop_drop add.commute)
  from len have l: "length tb = a" "length sb = b" "length cb = length (catalogUuids typedUuids)"
    unfolding tb_def sb_def cb_def a_def b_def by auto
  from ans blocks have an: "answered tb" "answered sb" "answered cb"
    by (simp_all add: answered_append)
  from scr blocks have s1: "script net = answers tb @ (answers sb @ answers cb @ rest)"
    by (simp add: answers_append)
  from resolve_tables_answers[OF _ an(1) s1, of "tableUuids typedUuids" cfg "[]"] l(1)
  obtain r1 n1 where
    t: "resolve_tables cfg (tableUuids typedUuids) [] net = Some (r1, n1)"
    and s2: "script n1 = answers sb @ (answers cb @ rest)"
    unfolding a_def by auto
  from resolve_schemas_answers[OF _ an(2) s2, of "schemaUuids typedUuids" cfg r1] l(2)
  obtain r2 n2 where
    s: "resolve_schemas cfg (schemaUuids typedUuids) r1 n1 = Some (r2, n2)"
    and s3: "script n2 = answers cb @ rest"
    unfolding b_def by auto
  from resolve_catalogs_answers[OF l(3) an(3) s3, of cfg r2]
  obtain r3 n3 where
    c: "resolve_catalogs cfg (catalogUuids typedUuids) r2 n2 = Some (r3, n3)"
    and s4: "script n3 = rest"
    by auto
  from False ne t s c s4 show ?thesis
    by (simp add: resolveUuids_def)
qed

text \<open>The texts of the statements.\<close>

lemma join_comma_concat: "join_comma (x # xs) = x @ concat (map (\<lambda>y. '', '' @ y) xs)"
  by (induction xs arbitrary: x) simp_all

lemma table_sql_text:
  "table_sql c =
     [CHR 0x0A] @ ''        SELECT table_catalog, table_schema, table_name, storage_sub_directory''
     @ [CHR 0x0A] @ ''        FROM system.information_schema.tables''
     @ [CHR 0x0A] @ ''        WHERE storage_sub_directory IN ('' @ c @ '')''
     @ [CHR 0x0A] @ ''      ''"
  by (simp add: table_sql_def line_def eval_nat_numeral)

lemma schema_sql_text:
  "schema_sql u =
     [CHR 0x0A] @ ''          SELECT DISTINCT table_catalog, table_schema''
     @ [CHR 0x0A] @ ''          FROM system.information_schema.tables''
     @ [CHR 0x0A] @ ''          WHERE storage_path LIKE '' @ [CHR 0x27] @ ''%/schemas/'' @ u @ ''/%''
     @ [CHR 0x27]
     @ [CHR 0x0A] @ ''          LIMIT 1''
     @ [CHR 0x0A] @ ''        ''"
  by (simp add: schema_sql_def line_def eval_nat_numeral)

lemma catalog_sql_text:
  "catalog_sql u =
     [CHR 0x0A] @ ''          SELECT DISTINCT table_catalog''
     @ [CHR 0x0A] @ ''          FROM system.information_schema.tables''
     @ [CHR 0x0A] @ ''          WHERE storage_path LIKE '' @ [CHR 0x27] @ ''%/catalogs/'' @ u @ ''/%''
     @ [CHR 0x27]
     @ [CHR 0x0A] @ ''          LIMIT 1''
     @ [CHR 0x0A] @ ''        ''"
  by (simp add: catalog_sql_def line_def eval_nat_numeral)

lemma groups_filter:
  "tableUuids typedUuids = filter (\<lambda>u. UUID_RE_test (uuid u) \<and> type u = ''table'') typedUuids"
  "schemaUuids typedUuids = filter (\<lambda>u. UUID_RE_test (uuid u) \<and> type u = ''schema'') typedUuids"
  "catalogUuids typedUuids = filter (\<lambda>u. UUID_RE_test (uuid u) \<and> type u = ''catalog'') typedUuids"
  by (simp_all add: tableUuids_def schemaUuids_def catalogUuids_def validUuids_def)

lemma batch_groups:
  "filter (\<lambda>u. UUID_RE_test (uuid u) \<and> type u = ''table'') batch_request =
     [\<lparr>type = ''table'', uuid = id3\<rparr>, \<lparr>type = ''table'', uuid = id4\<rparr>]"
  "filter (\<lambda>u. UUID_RE_test (uuid u) \<and> type u = ''schema'') batch_request =
     [\<lparr>type = ''schema'', uuid = id1\<rparr>, \<lparr>type = ''schema'', uuid = id2\<rparr>]"
  "filter (\<lambda>u. UUID_RE_test (uuid u) \<and> type u = ''catalog'') batch_request =
     [\<lparr>type = ''catalog'', uuid = id5\<rparr>, \<lparr>type = ''catalog'', uuid = id6\<rparr>]"
  by code_simp+

lemma batch_answered: "answered batch_answers" "length batch_answers = 5"
  by code_simp+

lemma batch_keys:
  "map_option (\<lambda>(r, n). map fst r)
     (resolveUuids batch_request (getConfig example_storage) batch_network) =
   Some [id3, id4, id1, id5]"
  by code_simp

text \<open>
  Claim C8. The statements \<open>resolveUuids\<close> submits are, in this order: one for the
  whole table group when the group is not empty, whose \<open>IN (...)\<close> list holds the marker
  \<open>'tables/<id>'\<close> of every identifier of the group, separated by commas; then one for
  each schema identifier and one for each catalog identifier, each matching the path
  against the identifier and ending in \<open>LIMIT 1\<close>. The groups are the identifiers of the
  input that match the pattern, by type. Each call of the executor submits its statement
  once, so the number of calls is 1 or 0 for the table group plus the number of schema
  identifiers plus the number of catalog identifiers. A run that returns has submitted
  exactly these statements; and on every endpoint that answers each of these
  statements, after any number of pending responses, with an outcome that ends the
  call, the run returns and has used exactly these answers.
\<close>

theorem resolver_executor_calls:
  assumes tables: "tables = filter (\<lambda>u. UUID_RE_test (uuid u) \<and> type u = ''table'') typedUuids"
    and schemas: "schemas = filter (\<lambda>u. UUID_RE_test (uuid u) \<and> type u = ''schema'') typedUuids"
    and catalogs: "catalogs = filter (\<lambda>u. UUID_RE_test (uuid u) \<and> type u = ''catalog'') typedUuids"
    and statements: "statements =
      (case tables of
         [] \<Rightarrow> []
       | u # us \<Rightarrow>
           [[CHR 0x0A] @ ''        SELECT table_catalog, table_schema, table_name, storage_sub_directory''
            @ [CHR 0x0A] @ ''        FROM system.information_schema.tables''
            @ [CHR 0x0A] @ ''        WHERE storage_sub_directory IN (''
            @ [CHR 0x27] @ ''tables/'' @ uuid u @ [CHR 0x27]
            @ concat (map (\<lambda>v. '', '' @ [CHR 0x27] @ ''tables/'' @ uuid v @ [CHR 0x27]) us)
            @ '')''
            @ [CHR 0x0A] @ ''      ''])
      @ map (\<lambda>u. [CHR 0x0A] @ ''          SELECT DISTINCT table_catalog, table_schema''
                  @ [CHR 0x0A] @ ''          FROM system.information_schema.tables''
                  @ [CHR 0x0A] @ ''          WHERE storage_path LIKE ''
                  @ [CHR 0x27] @ ''%/schemas/'' @ uuid u @ ''/%'' @ [CHR 0x27]
                  @ [CHR 0x0A] @ ''          LIMIT 1''
                  @ [CHR 0x0A] @ ''        '') schemas
      @ map (\<lambda>u. [CHR 0x0A] @ ''          SELECT DISTINCT table_catalog''
                  @ [CHR 0x0A] @ ''          FROM system.information_schema.tables''
                  @ [CHR 0x0A] @ ''          WHERE storage_path LIKE ''
                  @ [CHR 0x27] @ ''%/catalogs/'' @ uuid u @ ''/%'' @ [CHR 0x27]
                  @ [CHR 0x0A] @ ''          LIMIT 1''
                  @ [CHR 0x0A] @ ''        '') catalogs"
  shows "length statements = (if tables = [] then 0 else 1) + length schemas + length catalogs \<and>
         (resolveUuids typedUuids cfg net = Some (results, net') \<longrightarrow>
            submitted net' = submitted net @ statements) \<and>
         (length blocks = length statements \<and> answered blocks \<and>
          script net = answers blocks @ rest \<longrightarrow>
            (\<exists>results net'. resolveUuids typedUuids cfg net = Some (results, net') \<and>
               script net' = rest \<and> submitted net' = submitted net @ statements))"
proof -
  have g: "tables = tableUuids typedUuids" "schemas = schemaUuids typedUuids"
    "catalogs = catalogUuids typedUuids"
    by (simp_all add: tables schemas catalogs groups_filter)
  have t: "(case tables of [] \<Rightarrow> [] | u # us \<Rightarrow>
           [[CHR 0x0A] @ ''        SELECT table_catalog, table_schema, table_name, storage_sub_directory''
            @ [CHR 0x0A] @ ''        FROM system.information_schema.tables''
            @ [CHR 0x0A] @ ''        WHERE storage_sub_directory IN (''
            @ [CHR 0x27] @ ''tables/'' @ uuid u @ [CHR 0x27]
            @ concat (map (\<lambda>v. '', '' @ [CHR 0x27] @ ''tables/'' @ uuid v @ [CHR 0x27]) us)
            @ '')''
            @ [CHR 0x0A] @ ''      '']) =
        (if tableUuids typedUuids = [] then []
         else [table_sql (conditions_of (tableUuids typedUuids))])"
  proof (cases tables)
    case Nil
    with g(1) show ?thesis by simp
  next
    case (Cons u us)
    have "conditions_of (u # us) =
        [CHR 0x27] @ ''tables/'' @ uuid u @ [CHR 0x27]
        @ concat (map (\<lambda>v. '', '' @ [CHR 0x27] @ ''tables/'' @ uuid v @ [CHR 0x27]) us)"
      by (simp add: conditions_of_def join_comma_concat comp_def)
    with Cons g(1)[symmetric] show ?thesis
      by (simp add: table_sql_text)
  qed
  have st: "statements = group_statements typedUuids"
    unfolding statements t group_statements_def g[symmetric]
    by (simp add: schema_sql_text catalog_sql_text)
  have len: "length statements = (if tables = [] then 0 else 1) + length schemas + length catalogs"
    unfolding st group_statements_def g by simp
  have a: "resolveUuids typedUuids cfg net = Some (results, net') \<longrightarrow>
            submitted net' = submitted net @ statements"
    using resolveUuids_submitted[of typedUuids cfg net results net'] by (simp add: st)
  have b: "length blocks = length statements \<and> answered blocks \<and>
          script net = answers blocks @ rest \<longrightarrow>
            (\<exists>results net'. resolveUuids typedUuids cfg net = Some (results, net') \<and>
               script net' = rest \<and> submitted net' = submitted net @ statements)"
  proof (intro impI, elim conjE)
    assume l: "length blocks = length statements" and an: "answered blocks"
      and sc: "script net = answers blocks @ rest"
    from l len g have "length blocks = (if tableUuids typedUuids = [] then 0 else 1)
                  + length (schemaUuids typedUuids) + length (catalogUuids typedUuids)"
      by simp
    from resolveUuids_answers[OF this an sc, of cfg] obtain r n where
      r: "resolveUuids typedUuids cfg net = Some (r, n)" and s: "script n = rest"
      by blast
    from resolveUuids_submitted[OF r] have "submitted n = submitted net @ statements"
      by (simp add: st)
    with r s show "\<exists>results net'. resolveUuids typedUuids cfg net = Some (results, net') \<and>
               script net' = rest \<and> submitted net' = submitted net @ statements"
      by blast
  qed
  show ?thesis
    by (intro conjI len a b)
qed

text \<open>
  The request with two identifiers in each group: five statements, the first with both
  table identifiers in its list; the second schema statement fails and the second
  catalog statement is rejected, and the run returns the four names resolved.
\<close>

theorem resolver_executor_calls_witness:
  "\<exists>results net'.
     resolveUuids batch_request (getConfig example_storage) batch_network = Some (results, net') \<and>
     script net' = [] \<and>
     map fst results = [id3, id4, id1, id5] \<and>
     length (submitted net') = 5 \<and>
     hd (submitted net') =
       [CHR 0x0A] @ ''        SELECT table_catalog, table_schema, table_name, storage_sub_directory''
       @ [CHR 0x0A] @ ''        FROM system.information_schema.tables''
       @ [CHR 0x0A] @ ''        WHERE storage_sub_directory IN (''
       @ [CHR 0x27] @ ''tables/'' @ id3 @ [CHR 0x27] @ '', ''
       @ [CHR 0x27] @ ''tables/'' @ id4 @ [CHR 0x27] @ '')''
       @ [CHR 0x0A] @ ''      ''"
proof -
  define stmts where "stmts =
      [[CHR 0x0A] @ ''        SELECT table_catalog, table_schema, table_name, storage_sub_directory''
       @ [CHR 0x0A] @ ''        FROM system.information_schema.tables''
       @ [CHR 0x0A] @ ''        WHERE storage_sub_directory IN (''
       @ [CHR 0x27] @ ''tables/'' @ id3 @ [CHR 0x27] @ '', ''
       @ [CHR 0x27] @ ''tables/'' @ id4 @ [CHR 0x27] @ '')''
       @ [CHR 0x0A] @ ''      '',
       [CHR 0x0A] @ ''          SELECT DISTINCT table_catalog, table_schema''
                  @ [CHR 0x0A] @ ''          FROM system.information_schema.tables''
                  @ [CHR 0x0A] @ ''          WHERE storage_path LIKE ''
                  @ [CHR 0x27] @ ''%/schemas/'' @ id1 @ ''/%'' @ [CHR 0x27]
                  @ [CHR 0x0A] @ ''          LIMIT 1''
                  @ [CHR 0x0A] @ ''        '',
       [CHR 0x0A] @ ''          SELECT DISTINCT table_catalog, table_schema''
                  @ [CHR 0x0A] @ ''          FROM system.information_schema.tables''
                  @ [CHR 0x0A] @ ''          WHERE storage_path LIKE ''
                  @ [CHR 0x27] @ ''%/schemas/'' @ id2 @ ''/%'' @ [CHR 0x27]
                  @ [CHR 0x0A] @ ''          LIMIT 1''
                  @ [CHR 0x0A] @ ''        '',
       [CHR 0x0A] @ ''          SELECT DISTINCT table_catalog''
                  @ [CHR 0x0A] @ ''          FROM system.information_schema.tables''
                  @ [CHR 0x0A] @ ''          WHERE storage_path LIKE ''
                  @ [CHR 0x27] @ ''%/catalogs/'' @ id5 @ ''/%'' @ [CHR 0x27]
                  @ [CHR 0x0A] @ ''          LIMIT 1''
                  @ [CHR 0x0A] @ ''        '',
       [CHR 0x0A] @ ''          SELECT DISTINCT table_catalog''
                  @ [CHR 0x0A] @ ''          FROM system.information_schema.tables''
                  @ [CHR 0x0A] @ ''          WHERE storage_path LIKE ''
                  @ [CHR 0x27] @ ''%/catalogs/'' @ id6 @ ''/%'' @ [CHR 0x27]
                  @ [CHR 0x0A] @ ''          LIMIT 1''
                  @ [CHR 0x0A] @ ''        '']"
  let ?tables = "[\<lparr>type = ''table'', uuid = id3\<rparr>, \<lparr>type = ''table'', uuid = id4\<rparr>]"
  let ?schemas = "[\<lparr>type = ''schema'', uuid = id1\<rparr>, \<lparr>type = ''schema'', uuid = id2\<rparr>]"
  let ?catalogs = "[\<lparr>type = ''catalog'', uuid = id5\<rparr>, \<lparr>type = ''catalog'', uuid = id6\<rparr>]"
  have st: "stmts =
      (case ?tables of
         [] \<Rightarrow> []
       | u # us \<Rightarrow>
           [[CHR 0x0A] @ ''        SELECT table_catalog, table_schema, table_name, storage_sub_directory''
            @ [CHR 0x0A] @ ''        FROM system.information_schema.tables''
            @ [CHR 0x0A] @ ''        WHERE storage_sub_directory IN (''
            @ [CHR 0x27] @ ''tables/'' @ uuid u @ [CHR 0x27]
            @ concat (map (\<lambda>v. '', '' @ [CHR 0x27] @ ''tables/'' @ uuid v @ [CHR 0x27]) us)
            @ '')''
            @ [CHR 0x0A] @ ''      ''])
      @ map (\<lambda>u. [CHR 0x0A] @ ''          SELECT DISTINCT table_catalog, table_schema''
                  @ [CHR 0x0A] @ ''          FROM system.information_schema.tables''
                  @ [CHR 0x0A] @ ''          WHERE storage_path LIKE ''
                  @ [CHR 0x27] @ ''%/schemas/'' @ uuid u @ ''/%'' @ [CHR 0x27]
                  @ [CHR 0x0A] @ ''          LIMIT 1''
                  @ [CHR 0x0A] @ ''        '') ?schemas
      @ map (\<lambda>u. [CHR 0x0A] @ ''          SELECT DISTINCT table_catalog''
                  @ [CHR 0x0A] @ ''          FROM system.information_schema.tables''
                  @ [CHR 0x0A] @ ''          WHERE storage_path LIKE ''
                  @ [CHR 0x27] @ ''%/catalogs/'' @ uuid u @ ''/%'' @ [CHR 0x27]
                  @ [CHR 0x0A] @ ''          LIMIT 1''
                  @ [CHR 0x0A] @ ''        '') ?catalogs"
    by (simp add: stmts_def)
  have len: "length stmts = 5"
    by (simp add: stmts_def)
  have n: "script batch_network = answers batch_answers @ []" "submitted batch_network = []"
    by (simp_all add: batch_network_def submitted_def)
  note t = resolver_executor_calls[OF batch_groups(1)[symmetric] batch_groups(2)[symmetric]
      batch_groups(3)[symmetric] st,
      where blocks = batch_answers and net = batch_network and rest = "[]"
        and cfg = "getConfig example_storage"]
  from t have imp: "length batch_answers = length stmts \<and> answered batch_answers \<and>
          script batch_network = answers batch_answers @ [] \<longrightarrow>
            (\<exists>results net'.
               resolveUuids batch_request (getConfig example_storage) batch_network =
                 Some (results, net') \<and>
               script net' = [] \<and> submitted net' = submitted batch_network @ stmts)"
    by (rule conjunct2[THEN conjunct2])
  have prem: "length batch_answers = length stmts \<and> answered batch_answers \<and>
          script batch_network = answers batch_answers @ []"
    using batch_answered n(1) len by simp
  from mp[OF imp prem] obtain results net' where
    r: "resolveUuids batch_request (getConfig example_storage) batch_network = Some (results, net')"
    and s: "script net' = []"
    and sub0: "submitted net' = submitted batch_network @ stmts"
    by blast
  from sub0 n(2) have sub: "submitted net' = stmts"
    by simp
  from batch_keys r have k: "map fst results = [id3, id4, id1, id5]"
    by simp
  from sub len have l: "length (submitted net') = 5"
    by simp
  from sub have h: "hd (submitted net') =
       [CHR 0x0A] @ ''        SELECT table_catalog, table_schema, table_name, storage_sub_directory''
       @ [CHR 0x0A] @ ''        FROM system.information_schema.tables''
       @ [CHR 0x0A] @ ''        WHERE storage_sub_directory IN (''
       @ [CHR 0x27] @ ''tables/'' @ id3 @ [CHR 0x27] @ '', ''
       @ [CHR 0x27] @ ''tables/'' @ id4 @ [CHR 0x27] @ '')''
       @ [CHR 0x0A] @ ''      ''"
    by (simp add: stmts_def)
  show ?thesis
    by (intro exI conjI) (rule r, rule s, rule k, rule l, rule h)
qed

text \<open>A schema or catalog identifier whose statement fails.\<close>

lemma resolve_schemas_append:
  "resolve_schemas cfg (xs @ ys) results net =
     (case resolve_schemas cfg xs results net of
        None \<Rightarrow> None
      | Some (r, n) \<Rightarrow> resolve_schemas cfg ys r n)"
proof (induction xs arbitrary: results net)
  case Nil
  then show ?case by simp
next
  case (Cons x xs)
  show ?case
  proof (cases "executeSql (workspaceUrl cfg) (patToken cfg) (warehouseId cfg)
                  (schema_sql (uuid x)) net")
    case None
    then show ?thesis by simp
  next
    case (Some p)
    obtain res n where p: "p = (res, n)" by (cases p)
    show ?thesis
    proof (cases res)
      case (Inl msg)
      with Some p show ?thesis by (simp add: Cons.IH)
    next
      case (Inr d)
      with Some p show ?thesis by (simp add: Cons.IH)
    qed
  qed
qed

lemma resolve_catalogs_append:
  "resolve_catalogs cfg (xs @ ys) results net =
     (case resolve_catalogs cfg xs results net of
        None \<Rightarrow> None
      | Some (r, n) \<Rightarrow> resolve_catalogs cfg ys r n)"
proof (induction xs arbitrary: results net)
  case Nil
  then show ?case by simp
next
  case (Cons x xs)
  show ?case
  proof (cases "executeSql (workspaceUrl cfg) (patToken cfg) (warehouseId cfg)
                  (catalog_sql (uuid x)) net")
    case None
    then show ?thesis by simp
  next
    case (Some p)
    obtain res n where p: "p = (res, n)" by (cases p)
    show ?thesis
    proof (cases res)
      case (Inl msg)
      with Some p show ?thesis by (simp add: Cons.IH)
    next
      case (Inr d)
      with Some p show ?thesis by (simp add: Cons.IH)
    qed
  qed
qed

lemma resolveUuids_steps:
  assumes "resolveUuids typedUuids cfg net = Some (fresh, net')"
    and "validUuids typedUuids \<noteq> []"
  shows "\<exists>r1 n1 r2 n2.
           resolve_tables cfg (tableUuids typedUuids) [] net = Some (r1, n1) \<and>
           resolve_schemas cfg (schemaUuids typedUuids) r1 n1 = Some (r2, n2) \<and>
           resolve_catalogs cfg (catalogUuids typedUuids) r2 n2 = Some (fresh, net')"
proof -
  from assms(2) have "typedUuids \<noteq> []" by (auto simp: validUuids_def)
  with assms show ?thesis
    by (auto simp: resolveUuids_def split: option.splits)
qed

lemma resolveUuids_schema_failed_key:
  assumes run: "resolveUuids typedUuids cfg net = Some (fresh, net')"
    and dec: "schemaUuids typedUuids = before @ u # after"
    and t: "resolve_tables cfg (tableUuids typedUuids) [] net = Some (r1, n1)"
    and b: "resolve_schemas cfg before r1 n1 = Some (r2, n2)"
    and f: "executeSql (workspaceUrl cfg) (patToken cfg) (warehouseId cfg)
              (schema_sql (uuid u)) n2 = Some (Inl msg, n3)"
    and k1: "uuid u \<notin> fst ` set r2"
    and k2: "uuid u \<notin> uuid ` set after \<union> uuid ` set (catalogUuids typedUuids)"
  shows "uuid u \<notin> fst ` set fresh"
proof -
  from dec have v: "validUuids typedUuids \<noteq> []"
    unfolding schemaUuids_def by (cases "validUuids typedUuids") simp_all
  from resolveUuids_steps[OF run v] t obtain r2' n2' where
    s: "resolve_schemas cfg (schemaUuids typedUuids) r1 n1 = Some (r2', n2')"
    and c: "resolve_catalogs cfg (catalogUuids typedUuids) r2' n2' = Some (fresh, net')"
    by auto
  from s have "resolve_schemas cfg (u # after) r2 n2 = Some (r2', n2')"
    unfolding dec resolve_schemas_append by (simp add: b)
  with f have a: "resolve_schemas cfg after r2 n3 = Some (r2', n2')"
    by simp
  from resolve_schemas_keys[OF a] k1 k2 have "uuid u \<notin> fst ` set r2'"
    by (simp add: subset_iff) blast
  with resolve_catalogs_keys[OF c] k2 show ?thesis
    by (simp add: subset_iff) blast
qed

lemma resolveUuids_catalog_failed_key:
  assumes run: "resolveUuids typedUuids cfg net = Some (fresh, net')"
    and dec: "catalogUuids typedUuids = before @ u # after"
    and t: "resolve_tables cfg (tableUuids typedUuids) [] net = Some (r1, n1)"
    and s: "resolve_schemas cfg (schemaUuids typedUuids) r1 n1 = Some (r2, n2)"
    and b: "resolve_catalogs cfg before r2 n2 = Some (r3, n3)"
    and f: "executeSql (workspaceUrl cfg) (patToken cfg) (warehouseId cfg)
              (catalog_sql (uuid u)) n3 = Some (Inl msg, n4)"
    and k1: "uuid u \<notin> fst ` set r3"
    and k2: "uuid u \<notin> uuid ` set after"
  shows "uuid u \<notin> fst ` set fresh"
proof -
  from dec have v: "validUuids typedUuids \<noteq> []"
    unfolding catalogUuids_def by (cases "validUuids typedUuids") simp_all
  from resolveUuids_steps[OF run v] t s
  have c: "resolve_catalogs cfg (catalogUuids typedUuids) r2 n2 = Some (fresh, net')"
    by auto
  then have "resolve_catalogs cfg (u # after) r3 n3 = Some (fresh, net')"
    unfolding dec resolve_catalogs_append by (simp add: b)
  with f have a: "resolve_catalogs cfg after r3 n4 = Some (fresh, net')"
    by simp
  from resolve_catalogs_keys[OF a] k1 k2 show ?thesis
    by (simp add: subset_iff) blast
qed

section \<open>The lookup\<close>

lemma foldl_update_distinct:
  "distinct (map fst xs) \<Longrightarrow>
   map_of (foldl (\<lambda>obj (k, v). AList.update k v obj) acc xs) = map_of acc ++ map_of xs"
proof (induction xs arbitrary: acc)
  case Nil
  then show ?case by simp
next
  case (Cons p xs)
  obtain k v where p: "p = (k, v)" by (cases p)
  from Cons.prems p have d: "distinct (map fst xs)" and n: "k \<notin> dom (map_of xs)"
    by (auto simp: dom_map_of_conv_image_fst)
  have "map_of (foldl (\<lambda>obj (k, v). AList.update k v obj) acc (p # xs)) =
        map_of (AList.update k v acc) ++ map_of xs"
    using Cons.IH[OF d, of "AList.update k v acc"] by (simp add: p)
  also have "\<dots> = (map_of acc)(k \<mapsto> v) ++ map_of xs"
    by (simp add: update_conv')
  also have "\<dots> = (map_of acc ++ map_of xs)(k \<mapsto> v)"
    using n by (rule map_add_upd_left)
  also have "\<dots> = map_of acc ++ map_of (p # xs)"
    by (simp add: p)
  finally show ?case .
qed

lemma map_of_spread: "map_of (spread a b) = map_of a ++ map_of b"
proof -
  have "map_of (spread a b) =
        map_of (foldl (\<lambda>obj (k, v). AList.update k v obj)
                  (foldl (\<lambda>obj (k, v). AList.update k v obj) [] (entries a)) (entries b))"
    by (simp add: spread_def)
  also have "\<dots> = (map_of [] ++ map_of (entries a)) ++ map_of (entries b)"
    by (simp add: foldl_update_distinct entries_def distinct_clearjunk)
  also have "\<dots> = map_of a ++ map_of b"
    by (simp add: entries_def map_of_clearjunk)
  finally show ?thesis .
qed

lemma getCachedResults_Nil: "getCachedResults stored now [] = ([], [])"
  by (simp add: getCachedResults_def)

lemma lookupUuids_resolved:
  assumes run: "lookupUuids uuids t1 t2 stored net = Some (resp, stored', net')"
    and split: "getCachedResults stored t1 (typedUuids_of uuids) = (cached, uncached)"
    and unc: "uncached \<noteq> []"
    and tok: "patToken (getConfig stored) \<noteq> []"
  shows "\<exists>fresh. resolveUuids uncached (getConfig stored) net = Some (fresh, net') \<and>
           resp = \<lparr>matches = spread cached fresh, error = None\<rparr> \<and>
           stored' = updateCache fresh t2 stored"
proof -
  from split unc have ne: "typedUuids_of uuids \<noteq> []"
    using getCachedResults_Nil by (cases "typedUuids_of uuids") auto
  from run ne split unc tok show ?thesis
    by (auto simp: lookupUuids_def Let_def split: option.splits)
qed

text \<open>The misses of a lookup are not keys of its hits.\<close>

lemma typedUuids_of_lower: "x \<in> set (typedUuids_of uuids) \<Longrightarrow> toLowerCase (uuid x) = uuid x"
  by (auto simp: typedUuids_of_def toLowerCase_idem)

lemma getCachedResults_miss:
  assumes "getCachedResults stored now typedUuids = (cached, uncached)"
    and "x \<in> set uncached"
  shows "x \<in> set typedUuids \<and> toLowerCase (uuid x) \<notin> fst ` set cached"
proof -
  let ?cache = "uuidCache (getConfig stored)"
  from assms(1) have c: "cached = fst (split_loop ?cache now typedUuids ([], []))"
    and u: "uncached = snd (split_loop ?cache now typedUuids ([], []))"
    by (simp_all add: getCachedResults_def)
  from assms(2) have x: "x \<in> set typedUuids"
    and miss: "\<not> (\<exists>e. ?cache (toLowerCase (uuid x)) = Some e \<and> now - cachedAt e < CACHE_TTL_MS)"
    unfolding u split_loop_uncached by simp_all
  from miss have "map_of cached (toLowerCase (uuid x)) = None"
    unfolding c split_loop_cached by auto
  with x show ?thesis
    by (simp add: keys_map_of)
qed

lemma resolve_tables_failed:
  assumes "g \<noteq> []"
    and "executeSql (workspaceUrl cfg) (patToken cfg) (warehouseId cfg)
           (table_sql (conditions_of g)) net = Some (Inl msg, net1)"
  shows "resolve_tables cfg g results net = Some (results, net1)"
  using assms by (simp add: resolve_tables_def)

lemma resolveUuids_table_failed_keys:
  assumes run: "resolveUuids typedUuids cfg net = Some (fresh, net')"
    and grp: "tableUuids typedUuids \<noteq> []"
    and fail: "executeSql (workspaceUrl cfg) (patToken cfg) (warehouseId cfg)
           (table_sql (conditions_of (tableUuids typedUuids))) net = Some (Inl msg, net1)"
  shows "fst ` set fresh \<subseteq> uuid ` set (schemaUuids typedUuids) \<union> uuid ` set (catalogUuids typedUuids)"
proof -
  from grp have v: "validUuids typedUuids \<noteq> []"
    unfolding tableUuids_def by (cases "validUuids typedUuids") simp_all
  then have w: "typedUuids \<noteq> []"
    by (auto simp: validUuids_def)
  note v = v w
  note t = resolve_tables_failed[OF grp fail, of "[]"]
  from run v t obtain r2 n2 where
    s: "resolve_schemas cfg (schemaUuids typedUuids) [] net1 = Some (r2, n2)"
    and c: "resolve_catalogs cfg (catalogUuids typedUuids) r2 n2 = Some (fresh, net')"
    by (auto simp: resolveUuids_def split: option.splits)
  from resolve_schemas_keys[OF s]
  have "fst ` set r2 \<subseteq> uuid ` set (schemaUuids typedUuids)"
    by simp
  with resolve_catalogs_keys[OF c] show ?thesis
    by blast
qed

lemma resolve_schemas_failed:
  assumes "executeSql (workspaceUrl cfg) (patToken cfg) (warehouseId cfg)
             (schema_sql (uuid u)) n = Some (Inl msg, n1)"
  shows "resolve_schemas cfg (u # us) results n = resolve_schemas cfg us results n1"
  using assms by simp

lemma resolve_catalogs_failed:
  assumes "executeSql (workspaceUrl cfg) (patToken cfg) (warehouseId cfg)
             (catalog_sql (uuid u)) n = Some (Inl msg, n1)"
  shows "resolve_catalogs cfg (u # us) results n = resolve_catalogs cfg us results n1"
  using assms by simp

lemma keys_spread: "fst ` set (spread a b) = fst ` set a \<union> fst ` set b"
proof -
  have "dom (map_of (spread a b)) = dom (map_of a) \<union> dom (map_of b)"
    by (simp add: map_of_spread Un_commute)
  then show ?thesis
    by (simp add: dom_map_of_conv_image_fst)
qed

text \<open>
  Claim C2. When a lookup has at least one cache miss and no token is stored (the key
  is absent or holds the empty string), the response is exactly the cache hits with the
  error \<open>No PAT token configured\<close>, and neither the storage nor the endpoint is
  touched: no request is sent.
\<close>

theorem lookup_without_credential:
  assumes "stored_patToken stored = None \<or> stored_patToken stored = Some []"
    and "getCachedResults stored now_split (typedUuids_of uuids) = (cached, uncached)"
    and "uncached \<noteq> []"
  shows "lookupUuids uuids now_split now_merge stored net =
         Some (\<lparr>matches = cached, error = Some ''No PAT token configured''\<rparr>, stored, net)"
proof -
  from assms(1) have tok: "patToken (getConfig stored) = []"
    by (auto simp: getConfig_def)
  from assms(2,3) have ne: "typedUuids_of uuids \<noteq> []"
    using getCachedResults_Nil by (cases "typedUuids_of uuids") auto
  from tok ne assms(2,3) show ?thesis
    by (simp add: lookupUuids_def Let_def)
qed

text \<open>The example storage without its token: one hit, two misses, no request.\<close>

theorem lookup_without_credential_witness:
  "getCachedResults (example_storage\<lparr>stored_patToken := None\<rparr>) 86400000
     (typedUuids_of example_request) =
     ([(id1, name1)], [\<lparr>type = ''schema'', uuid = id2\<rparr>, \<lparr>type = ''table'', uuid = id3\<rparr>]) \<and>
   lookupUuids example_request 86400000 86400001 (example_storage\<lparr>stored_patToken := None\<rparr>)
     mixed_network =
   Some (\<lparr>matches = [(id1, name1)], error = Some ''No PAT token configured''\<rparr>,
         example_storage\<lparr>stored_patToken := None\<rparr>, mixed_network)"
proof -
  have e: "getCachedResults (example_storage\<lparr>stored_patToken := None\<rparr>) 86400000
     (typedUuids_of example_request) =
     ([(id1, name1)], [\<lparr>type = ''schema'', uuid = id2\<rparr>, \<lparr>type = ''table'', uuid = id3\<rparr>])"
    by code_simp
  have t: "stored_patToken (example_storage\<lparr>stored_patToken := None\<rparr>) = None \<or>
           stored_patToken (example_storage\<lparr>stored_patToken := None\<rparr>) = Some []"
    by simp
  from lookup_without_credential[OF t e, of 86400001 mixed_network] e
  show ?thesis by simp
qed

text \<open>
  Claim C10. \<open>updateCache\<close> writes the entry (value, \<open>now\<close>) under each key of the
  fresh object and leaves the entry of every other key and the configuration as they
  are, and it sets \<open>cacheUpdatedAt\<close> to \<open>now\<close> whatever the fresh object holds. So a
  lookup with misses and a token sets \<open>cacheUpdatedAt\<close>, and when none of its misses
  resolves (the fresh object is empty) no entry of the cache changes.
\<close>

theorem merge_frame:
  "uuidCache (getConfig (updateCache fresh now stored)) k =
     (case map_of fresh k of
        None \<Rightarrow> uuidCache (getConfig stored) k
      | Some v \<Rightarrow> Some \<lparr>data = v, cachedAt = now\<rparr>) \<and>
   stored_cacheUpdatedAt (updateCache fresh now stored) = Some now \<and>
   stored_workspaceUrl (updateCache fresh now stored) = stored_workspaceUrl stored \<and>
   stored_warehouseId (updateCache fresh now stored) = stored_warehouseId stored \<and>
   stored_patToken (updateCache fresh now stored) = stored_patToken stored \<and>
   (lookupUuids uuids now_split now_merge stored net = Some (resp, stored', net') \<and>
    snd (getCachedResults stored now_split (typedUuids_of uuids)) \<noteq> [] \<and>
    patToken (getConfig stored) \<noteq> [] \<longrightarrow>
      stored_cacheUpdatedAt stored' = Some now_merge \<and>
      (map_option fst
         (resolveUuids (snd (getCachedResults stored now_split (typedUuids_of uuids)))
            (getConfig stored) net) = Some [] \<longrightarrow>
       uuidCache (getConfig stored') = uuidCache (getConfig stored)))"
proof -
  have a: "uuidCache (getConfig (updateCache fresh now stored)) k =
     (case map_of fresh k of
        None \<Rightarrow> uuidCache (getConfig stored) k
      | Some v \<Rightarrow> Some \<lparr>data = v, cachedAt = now\<rparr>)"
    by (rule uuidCache_updateCache)
  have b: "stored_cacheUpdatedAt (updateCache fresh now stored) = Some now"
    "stored_workspaceUrl (updateCache fresh now stored) = stored_workspaceUrl stored"
    "stored_warehouseId (updateCache fresh now stored) = stored_warehouseId stored"
    "stored_patToken (updateCache fresh now stored) = stored_patToken stored"
    by (simp_all add: updateCache_def)
  have c: "lookupUuids uuids now_split now_merge stored net = Some (resp, stored', net') \<and>
    snd (getCachedResults stored now_split (typedUuids_of uuids)) \<noteq> [] \<and>
    patToken (getConfig stored) \<noteq> [] \<longrightarrow>
      stored_cacheUpdatedAt stored' = Some now_merge \<and>
      (map_option fst
         (resolveUuids (snd (getCachedResults stored now_split (typedUuids_of uuids)))
            (getConfig stored) net) = Some [] \<longrightarrow>
       uuidCache (getConfig stored') = uuidCache (getConfig stored))"
  proof (intro impI, elim conjE)
    assume run: "lookupUuids uuids now_split now_merge stored net = Some (resp, stored', net')"
      and unc: "snd (getCachedResults stored now_split (typedUuids_of uuids)) \<noteq> []"
      and tok: "patToken (getConfig stored) \<noteq> []"
    obtain cached uncached where
      split: "getCachedResults stored now_split (typedUuids_of uuids) = (cached, uncached)"
      by (cases "getCachedResults stored now_split (typedUuids_of uuids)")
    with unc have u: "uncached \<noteq> []" by simp
    from lookupUuids_resolved[OF run split u tok] obtain freshResults where
      r: "resolveUuids uncached (getConfig stored) net = Some (freshResults, net')"
      and s: "stored' = updateCache freshResults now_merge stored"
      by blast
    have 1: "stored_cacheUpdatedAt stored' = Some now_merge"
      by (simp add: s updateCache_def)
    have 2: "map_option fst
         (resolveUuids (snd (getCachedResults stored now_split (typedUuids_of uuids)))
            (getConfig stored) net) = Some [] \<longrightarrow>
       uuidCache (getConfig stored') = uuidCache (getConfig stored)"
    proof
      assume "map_option fst
         (resolveUuids (snd (getCachedResults stored now_split (typedUuids_of uuids)))
            (getConfig stored) net) = Some []"
      with r split have "freshResults = []" by simp
      then have "uuidCache (getConfig stored') k = uuidCache (getConfig stored) k" for k
        unfolding s by (simp add: uuidCache_updateCache)
      then show "uuidCache (getConfig stored') = uuidCache (getConfig stored)"
        by (rule ext)
    qed
    from 1 2 show "stored_cacheUpdatedAt stored' = Some now_merge \<and>
      (map_option fst
         (resolveUuids (snd (getCachedResults stored now_split (typedUuids_of uuids)))
            (getConfig stored) net) = Some [] \<longrightarrow>
       uuidCache (getConfig stored') = uuidCache (getConfig stored))"
      by (rule conjI)
  qed
  show ?thesis
    by (intro conjI a b c)
qed

text \<open>
  A lookup of one table identifier whose statement fails: nothing is resolved,
  \<open>cacheUpdatedAt\<close> goes from 1000 to 6000 and the cache keeps its entries.
\<close>

theorem merge_frame_witness:
  "\<exists>resp stored' net'.
     lookupUuids [\<lparr>type = ''table'', uuid = id3\<rparr>] 5000 6000 example_storage failed_network =
       Some (resp, stored', net') \<and>
     matches resp = [] \<and>
     stored_cacheUpdatedAt example_storage = Some 1000 \<and>
     stored_cacheUpdatedAt stored' = Some 6000 \<and>
     uuidCache (getConfig stored') = uuidCache (getConfig example_storage)"
proof -
  have "map_option (\<lambda>(resp, stored', net'). matches resp)
          (lookupUuids [\<lparr>type = ''table'', uuid = id3\<rparr>] 5000 6000 example_storage failed_network)
        = Some []"
    by code_simp
  then obtain resp stored' net' where
    run: "lookupUuids [\<lparr>type = ''table'', uuid = id3\<rparr>] 5000 6000 example_storage failed_network =
       Some (resp, stored', net')"
    and m: "matches resp = []"
    by (auto simp: map_option_case split: option.splits)
  have u: "snd (getCachedResults example_storage 5000
             (typedUuids_of [\<lparr>type = ''table'', uuid = id3\<rparr>])) \<noteq> []"
    by code_simp
  have t: "patToken (getConfig example_storage) \<noteq> []"
    by code_simp
  have r: "map_option fst
         (resolveUuids (snd (getCachedResults example_storage 5000
                               (typedUuids_of [\<lparr>type = ''table'', uuid = id3\<rparr>])))
            (getConfig example_storage) failed_network) = Some []"
    by code_simp
  have o: "stored_cacheUpdatedAt example_storage = Some 1000"
    by (simp add: example_storage_def)
  from merge_frame[of "[]" 0 example_storage id3 "[\<lparr>type = ''table'', uuid = id3\<rparr>]" 5000 6000
      failed_network resp stored' net'] run u t r
  have "stored_cacheUpdatedAt stored' = Some 6000 \<and>
     uuidCache (getConfig stored') = uuidCache (getConfig example_storage)"
    by blast
  with run m o show ?thesis by blast
qed

lemma all_failing_steps:
  "case resolve_tables (getConfig example_storage) [\<lparr>type = ''table'', uuid = id3\<rparr>] []
          all_failing_network of
     None \<Rightarrow> False
   | Some (r1, n1) \<Rightarrow>
       r1 = [] \<and>
       (case executeSql ''https://dbc.example.com/'' ''tok'' ''wh1'' (schema_sql id2) n1 of
          None \<Rightarrow> False
        | Some (res, n3) \<Rightarrow>
            res = Inl ''SQL failed: y'' \<and>
            (case executeSql ''https://dbc.example.com/'' ''tok'' ''wh1'' (catalog_sql id4) n3 of
               None \<Rightarrow> False
             | Some (res', n4) \<Rightarrow> res' = Inl ''SQL failed: z''))"
  by code_simp

lemma all_failing_lookup:
  "map_option fst
     (lookupUuids failing_request 86400000 86400001 example_storage all_failing_network) =
     Some \<lparr>matches = [(id1, name1)], error = None\<rparr>"
  by code_simp

lemma failing_split:
  "getCachedResults example_storage 86400000 (typedUuids_of failing_request) =
     ([(id1, name1)],
      [\<lparr>type = ''schema'', uuid = id2\<rparr>, \<lparr>type = ''table'', uuid = id3\<rparr>,
       \<lparr>type = ''catalog'', uuid = id4\<rparr>])"
  by code_simp

lemma failing_groups:
  "tableUuids [\<lparr>type = ''schema'', uuid = id2\<rparr>, \<lparr>type = ''table'', uuid = id3\<rparr>,
       \<lparr>type = ''catalog'', uuid = id4\<rparr>] = [\<lparr>type = ''table'', uuid = id3\<rparr>]"
  "schemaUuids [\<lparr>type = ''schema'', uuid = id2\<rparr>, \<lparr>type = ''table'', uuid = id3\<rparr>,
       \<lparr>type = ''catalog'', uuid = id4\<rparr>] = [\<lparr>type = ''schema'', uuid = id2\<rparr>]"
  "catalogUuids [\<lparr>type = ''schema'', uuid = id2\<rparr>, \<lparr>type = ''table'', uuid = id3\<rparr>,
       \<lparr>type = ''catalog'', uuid = id4\<rparr>] = [\<lparr>type = ''catalog'', uuid = id4\<rparr>]"
  by code_simp+

text \<open>
  Claim C1 as stated fails. In the example the table statement is polled once and ends
  in \<open>FAILED\<close> with the message \<open>x\<close>, so the executor throws \<open>SQL failed: x\<close>;
  \<open>resolveUuids\<close> catches and logs it, and the response of the lookup has the cache
  hit and the schema resolved afterwards, and no \<open>error\<close> field.
\<close>

theorem lookup_failed_statement_counterexample:
  "map_option fst
     (executeSql ''https://dbc.example.com/'' ''tok'' ''wh1''
        (table_sql (conditions_of [\<lparr>type = ''table'', uuid = id3\<rparr>])) failing_network) =
     Some (Inl ''SQL failed: x'') \<and>
   map_option fst
     (lookupUuids example_request 86400000 86400001 example_storage failing_network) =
     Some \<lparr>matches = [(id1, name1), (id2, name2)], error = None\<rparr>"
proof -
  have a: "map_option fst
     (executeSql ''https://dbc.example.com/'' ''tok'' ''wh1''
        (table_sql (conditions_of [\<lparr>type = ''table'', uuid = id3\<rparr>])) failing_network) =
     Some (Inl ''SQL failed: x'')"
    by code_simp
  have b: "map_option fst
     (lookupUuids example_request 86400000 86400001 example_storage failing_network) =
     Some \<lparr>matches = [(id1, name1), (id2, name2)], error = None\<rparr>"
    by code_simp
  from a b show ?thesis by (rule conjI)
qed


text \<open>
  Claim C1, as amended. For every lookup with a token and at least one miss, whatever
  statements fail, the response has no \<open>error\<close> field and every cache hit is a key of
  \<open>matches\<close>: \<open>resolveUuids\<close> catches and logs the error of each statement. When the
  misses hold a table identifier that matches the pattern and the table statement is
  answered by pending responses and then by \<open>FAILED\<close> with a message \<open>x\<close> that is not
  empty, the executor throws \<open>SQL failed: x\<close> for that statement, every cache hit keeps
  its cached value, and an identifier of the table group that is not also asked for as
  a schema or a catalog has no match. When the statement of a schema identifier fails,
  at the point where the lookup submits it (after the table group and the schema
  identifiers before it), that identifier has no match, unless a statement before it
  has given a match under the same identifier or the identifier is asked for again
  later in the schema group or in the catalog group. The same holds for the statement
  of a catalog identifier, after the table group, the schema group and the catalog
  identifiers before it.
\<close>

theorem lookup_failed_statement:
  assumes tok: "patToken (getConfig stored) \<noteq> []"
    and split: "getCachedResults stored now_split (typedUuids_of uuids) = (cached, uncached)"
    and unc: "uncached \<noteq> []"
    and run: "lookupUuids uuids now_split now_merge stored net = Some (resp, stored', net')"
  shows "error resp = None \<and>
         fst ` set cached \<subseteq> fst ` set (matches resp) \<and>
         (tableUuids uncached \<noteq> [] \<and> (\<forall>r\<in>set pre. pending r) \<and>
          ok fin \<and> body_json fin = Inr d \<and> status d = Some st \<and>
          state st = ''FAILED'' \<and> error_message st = Some x \<and> x \<noteq> [] \<and>
          net = \<lparr>script = map Responded (pre @ [fin]) @ rest, requests = rq\<rparr> \<longrightarrow>
            map_option fst
              (executeSql (workspaceUrl (getConfig stored)) (patToken (getConfig stored))
                 (warehouseId (getConfig stored))
                 (table_sql (conditions_of (tableUuids uncached))) net) =
              Some (Inl (''SQL failed: '' @ x)) \<and>
            (\<forall>k\<in>fst ` set cached. map_of (matches resp) k = map_of cached k) \<and>
            (\<forall>u\<in>set (tableUuids uncached).
               uuid u \<notin> uuid ` set (schemaUuids uncached) \<union> uuid ` set (catalogUuids uncached) \<longrightarrow>
               map_of (matches resp) (uuid u) = None)) \<and>
         (schemaUuids uncached = before @ s # after \<and>
          resolve_tables (getConfig stored) (tableUuids uncached) [] net = Some (r1, n1) \<and>
          resolve_schemas (getConfig stored) before r1 n1 = Some (r2, n2) \<and>
          executeSql (workspaceUrl (getConfig stored)) (patToken (getConfig stored))
            (warehouseId (getConfig stored)) (schema_sql (uuid s)) n2 = Some (Inl msg, n3) \<and>
          uuid s \<notin> fst ` set r2 \<and>
          uuid s \<notin> uuid ` set after \<union> uuid ` set (catalogUuids uncached) \<longrightarrow>
            map_of (matches resp) (uuid s) = None) \<and>
         (catalogUuids uncached = before' @ c # after' \<and>
          resolve_tables (getConfig stored) (tableUuids uncached) [] net = Some (q1, m1) \<and>
          resolve_schemas (getConfig stored) (schemaUuids uncached) q1 m1 = Some (q2, m2) \<and>
          resolve_catalogs (getConfig stored) before' q2 m2 = Some (q3, m3) \<and>
          executeSql (workspaceUrl (getConfig stored)) (patToken (getConfig stored))
            (warehouseId (getConfig stored)) (catalog_sql (uuid c)) m3 = Some (Inl msg', m4) \<and>
          uuid c \<notin> fst ` set q3 \<and>
          uuid c \<notin> uuid ` set after' \<longrightarrow>
            map_of (matches resp) (uuid c) = None)"
proof -
  let ?cfg = "getConfig stored"
  from lookupUuids_resolved[OF run split unc tok] obtain fresh where
    r: "resolveUuids uncached ?cfg net = Some (fresh, net')"
    and resp: "resp = \<lparr>matches = spread cached fresh, error = None\<rparr>"
    by blast
  have g1: "error resp = None"
    by (simp add: resp)
  have g2: "fst ` set cached \<subseteq> fst ` set (matches resp)"
    by (simp add: resp keys_spread)
  have sub: "v \<in> set uncached \<and> UUID_RE_test (uuid v)"
    if "v \<in> set (tableUuids uncached) \<union> set (schemaUuids uncached) \<union> set (catalogUuids uncached)"
    for v
    using that group_members[of v uncached] by (elim UnE) simp_all
  have g3: "tableUuids uncached \<noteq> [] \<and> (\<forall>r\<in>set pre. pending r) \<and>
          ok fin \<and> body_json fin = Inr d \<and> status d = Some st \<and>
          state st = ''FAILED'' \<and> error_message st = Some x \<and> x \<noteq> [] \<and>
          net = \<lparr>script = map Responded (pre @ [fin]) @ rest, requests = rq\<rparr> \<longrightarrow>
            map_option fst
              (executeSql (workspaceUrl ?cfg) (patToken ?cfg) (warehouseId ?cfg)
                 (table_sql (conditions_of (tableUuids uncached))) net) =
              Some (Inl (''SQL failed: '' @ x)) \<and>
            (\<forall>k\<in>fst ` set cached. map_of (matches resp) k = map_of cached k) \<and>
            (\<forall>u\<in>set (tableUuids uncached).
               uuid u \<notin> uuid ` set (schemaUuids uncached) \<union> uuid ` set (catalogUuids uncached) \<longrightarrow>
               map_of (matches resp) (uuid u) = None)"
  proof (intro impI, elim conjE)
    assume grp: "tableUuids uncached \<noteq> []"
      and pend: "\<forall>r\<in>set pre. pending r"
      and fin: "ok fin" "body_json fin = Inr d" "status d = Some st"
      and failed: "state st = ''FAILED''" "error_message st = Some x" "x \<noteq> []"
      and net: "net = \<lparr>script = map Responded (pre @ [fin]) @ rest, requests = rq\<rparr>"
    from failed(1) have terminal: "state st \<noteq> ''PENDING''" "state st \<noteq> ''RUNNING''"
      by simp_all
    from fin(3) failed have f: "finish d = Inl (''SQL failed: '' @ x)"
      by (simp add: finish_def)
    from executeSql_run[OF pend fin terminal, of "workspaceUrl ?cfg" "patToken ?cfg" "warehouseId ?cfg"
        "table_sql (conditions_of (tableUuids uncached))" rest rq] f net
    have ex: "executeSql (workspaceUrl ?cfg) (patToken ?cfg) (warehouseId ?cfg)
             (table_sql (conditions_of (tableUuids uncached))) net =
           Some (Inl (''SQL failed: '' @ x),
                 \<lparr>script = rest,
                  requests = rq @ POST (statements_url (workspaceUrl ?cfg)) (patToken ?cfg)
                                    (warehouseId ?cfg) (table_sql (conditions_of (tableUuids uncached)))
                                  # map (poll_of (statements_url (workspaceUrl ?cfg)) (patToken ?cfg)) pre\<rparr>)"
      by (simp only:)
    note keys = resolveUuids_table_failed_keys[OF r grp ex]
    have fresh_miss: "k \<notin> fst ` set cached" if "k \<in> fst ` set fresh" for k
    proof -
      from that keys have "k \<in> uuid ` (set (schemaUuids uncached) \<union> set (catalogUuids uncached))"
        unfolding image_Un by (rule subsetD[rotated])
      then obtain v where
        v: "v \<in> set (schemaUuids uncached) \<union> set (catalogUuids uncached)" "uuid v = k"
        by (rule imageE) simp
      with sub[of v] have m: "v \<in> set uncached" by blast
      from getCachedResults_miss[OF split m] typedUuids_of_lower[of v uuids] v(2)
      show ?thesis by simp
    qed
    have a: "map_option fst
             (executeSql (workspaceUrl ?cfg) (patToken ?cfg) (warehouseId ?cfg)
                (table_sql (conditions_of (tableUuids uncached))) net) =
             Some (Inl (''SQL failed: '' @ x))"
      by (simp add: ex)
    have c: "\<forall>k\<in>fst ` set cached. map_of (matches resp) k = map_of cached k"
    proof
      fix k assume k: "k \<in> fst ` set cached"
      with fresh_miss[of k] have "k \<notin> fst ` set fresh"
        by auto
      then have "map_of fresh k = None"
        by (simp add: keys_map_of)
      then show "map_of (matches resp) k = map_of cached k"
        by (simp add: resp map_of_spread map_add_def)
    qed
    have e: "\<forall>u\<in>set (tableUuids uncached).
              uuid u \<notin> uuid ` set (schemaUuids uncached) \<union> uuid ` set (catalogUuids uncached) \<longrightarrow>
              map_of (matches resp) (uuid u) = None"
    proof (intro ballI impI)
      fix u assume u: "u \<in> set (tableUuids uncached)"
        and n: "uuid u \<notin> uuid ` set (schemaUuids uncached) \<union> uuid ` set (catalogUuids uncached)"
      from n keys have "uuid u \<notin> fst ` set fresh"
        by (rule contra_subsetD[rotated])
      then have 1: "map_of fresh (uuid u) = None"
        by (simp add: keys_map_of)
      from sub[of u] u have m: "u \<in> set uncached" by blast
      from getCachedResults_miss[OF split m] typedUuids_of_lower[of u uuids]
      have 2: "map_of cached (uuid u) = None"
        by (simp add: keys_map_of)
      from 1 2 show "map_of (matches resp) (uuid u) = None"
        by (simp add: resp map_of_spread map_add_def)
    qed
    show "map_option fst
              (executeSql (workspaceUrl ?cfg) (patToken ?cfg) (warehouseId ?cfg)
                 (table_sql (conditions_of (tableUuids uncached))) net) =
              Some (Inl (''SQL failed: '' @ x)) \<and>
            (\<forall>k\<in>fst ` set cached. map_of (matches resp) k = map_of cached k) \<and>
            (\<forall>u\<in>set (tableUuids uncached).
               uuid u \<notin> uuid ` set (schemaUuids uncached) \<union> uuid ` set (catalogUuids uncached) \<longrightarrow>
               map_of (matches resp) (uuid u) = None)"
      by (intro conjI a c e)
  qed
  have no_match: "map_of (matches resp) (uuid v) = None"
    if v: "v \<in> set (tableUuids uncached) \<union> set (schemaUuids uncached) \<union> set (catalogUuids uncached)"
      and n: "uuid v \<notin> fst ` set fresh" for v
  proof -
    from n have 1: "map_of fresh (uuid v) = None"
      by (simp add: keys_map_of)
    from sub[OF v] have m: "v \<in> set uncached" by blast
    from getCachedResults_miss[OF split m] typedUuids_of_lower[of v uuids]
    have 2: "map_of cached (uuid v) = None"
      by (simp add: keys_map_of)
    from 1 2 show ?thesis
      by (simp add: resp map_of_spread map_add_def)
  qed
  have g4: "schemaUuids uncached = before @ s # after \<and>
          resolve_tables ?cfg (tableUuids uncached) [] net = Some (r1, n1) \<and>
          resolve_schemas ?cfg before r1 n1 = Some (r2, n2) \<and>
          executeSql (workspaceUrl ?cfg) (patToken ?cfg) (warehouseId ?cfg)
            (schema_sql (uuid s)) n2 = Some (Inl msg, n3) \<and>
          uuid s \<notin> fst ` set r2 \<and>
          uuid s \<notin> uuid ` set after \<union> uuid ` set (catalogUuids uncached) \<longrightarrow>
            map_of (matches resp) (uuid s) = None"
  proof (intro impI, elim conjE)
    assume dec: "schemaUuids uncached = before @ s # after"
      and t: "resolve_tables ?cfg (tableUuids uncached) [] net = Some (r1, n1)"
      and b: "resolve_schemas ?cfg before r1 n1 = Some (r2, n2)"
      and f: "executeSql (workspaceUrl ?cfg) (patToken ?cfg) (warehouseId ?cfg)
            (schema_sql (uuid s)) n2 = Some (Inl msg, n3)"
      and k1: "uuid s \<notin> fst ` set r2"
      and k2: "uuid s \<notin> uuid ` set after \<union> uuid ` set (catalogUuids uncached)"
    from dec have v: "s \<in> set (tableUuids uncached) \<union> set (schemaUuids uncached) \<union> set (catalogUuids uncached)"
      by simp
    from no_match[OF v resolveUuids_schema_failed_key[OF r dec t b f k1 k2]]
    show "map_of (matches resp) (uuid s) = None" .
  qed
  have g5: "catalogUuids uncached = before' @ c # after' \<and>
          resolve_tables ?cfg (tableUuids uncached) [] net = Some (q1, m1) \<and>
          resolve_schemas ?cfg (schemaUuids uncached) q1 m1 = Some (q2, m2) \<and>
          resolve_catalogs ?cfg before' q2 m2 = Some (q3, m3) \<and>
          executeSql (workspaceUrl ?cfg) (patToken ?cfg) (warehouseId ?cfg)
            (catalog_sql (uuid c)) m3 = Some (Inl msg', m4) \<and>
          uuid c \<notin> fst ` set q3 \<and>
          uuid c \<notin> uuid ` set after' \<longrightarrow>
            map_of (matches resp) (uuid c) = None"
  proof (intro impI, elim conjE)
    assume dec: "catalogUuids uncached = before' @ c # after'"
      and t: "resolve_tables ?cfg (tableUuids uncached) [] net = Some (q1, m1)"
      and sc: "resolve_schemas ?cfg (schemaUuids uncached) q1 m1 = Some (q2, m2)"
      and b: "resolve_catalogs ?cfg before' q2 m2 = Some (q3, m3)"
      and f: "executeSql (workspaceUrl ?cfg) (patToken ?cfg) (warehouseId ?cfg)
            (catalog_sql (uuid c)) m3 = Some (Inl msg', m4)"
      and k1: "uuid c \<notin> fst ` set q3"
      and k2: "uuid c \<notin> uuid ` set after'"
    from dec have v: "c \<in> set (tableUuids uncached) \<union> set (schemaUuids uncached) \<union> set (catalogUuids uncached)"
      by simp
    from no_match[OF v resolveUuids_catalog_failed_key[OF r dec t sc b f k1 k2]]
    show "map_of (matches resp) (uuid c) = None" .
  qed
  show ?thesis
    by (intro conjI g1 g2 g3 g4 g5)
qed

text \<open>
  The lookup on the endpoint where the three statements fail: the hit \<open>id1\<close> keeps its
  cached name, the table identifier \<open>id3\<close>, the schema identifier \<open>id2\<close> and the
  catalog identifier \<open>id4\<close> have no match, and there is no error.
\<close>

theorem lookup_failed_statement_witness:
  "\<exists>resp stored' net'.
     lookupUuids failing_request 86400000 86400001 example_storage all_failing_network =
       Some (resp, stored', net') \<and>
     error resp = None \<and>
     map_of (matches resp) id1 = Some name1 \<and>
     map_of (matches resp) id3 = None \<and>
     map_of (matches resp) id2 = None \<and>
     map_of (matches resp) id4 = None"
proof -
  let ?cfg = "getConfig example_storage"
  let ?unc = "[\<lparr>type = ''schema'', uuid = id2\<rparr>, \<lparr>type = ''table'', uuid = id3\<rparr>,
       \<lparr>type = ''catalog'', uuid = id4\<rparr>]"
  from all_failing_lookup obtain resp stored' net' where
    run: "lookupUuids failing_request 86400000 86400001 example_storage all_failing_network =
       Some (resp, stored', net')"
    by (auto simp: map_option_case split: option.splits)
  have cfg: "workspaceUrl ?cfg = ''https://dbc.example.com/''" "patToken ?cfg = ''tok''"
    "warehouseId ?cfg = ''wh1''"
    by (simp_all add: getConfig_def example_storage_def)
  have tok: "patToken ?cfg \<noteq> []"
    by (simp add: cfg)
  have unc: "?unc \<noteq> []"
    by simp
  from all_failing_steps obtain n1 where
    t: "resolve_tables ?cfg [\<lparr>type = ''table'', uuid = id3\<rparr>] [] all_failing_network = Some ([], n1)"
    and rest1: "case executeSql ''https://dbc.example.com/'' ''tok'' ''wh1'' (schema_sql id2) n1 of
          None \<Rightarrow> False
        | Some (res, n3) \<Rightarrow>
            res = Inl ''SQL failed: y'' \<and>
            (case executeSql ''https://dbc.example.com/'' ''tok'' ''wh1'' (catalog_sql id4) n3 of
               None \<Rightarrow> False
             | Some (res', n4) \<Rightarrow> res' = Inl ''SQL failed: z'')"
    by (cases "resolve_tables ?cfg [\<lparr>type = ''table'', uuid = id3\<rparr>] [] all_failing_network")
       auto
  from rest1 obtain n3 where
    f2: "executeSql ''https://dbc.example.com/'' ''tok'' ''wh1'' (schema_sql id2) n1 =
               Some (Inl ''SQL failed: y'', n3)"
    and rest2: "case executeSql ''https://dbc.example.com/'' ''tok'' ''wh1'' (catalog_sql id4) n3 of
               None \<Rightarrow> False
             | Some (res', n4) \<Rightarrow> res' = Inl ''SQL failed: z''"
    by (cases "executeSql ''https://dbc.example.com/'' ''tok'' ''wh1'' (schema_sql id2) n1") auto
  from rest2 obtain n4 where
    f3: "executeSql ''https://dbc.example.com/'' ''tok'' ''wh1'' (catalog_sql id4) n3 =
               Some (Inl ''SQL failed: z'', n4)"
    by (cases "executeSql ''https://dbc.example.com/'' ''tok'' ''wh1'' (catalog_sql id4) n3") auto
  have s2: "resolve_schemas ?cfg [\<lparr>type = ''schema'', uuid = id2\<rparr>] [] n1 = Some ([], n3)"
    using f2 by (simp add: cfg)
  have ids: "id2 \<noteq> id4" "id3 \<noteq> id2" "id3 \<noteq> id4"
    by (simp_all add: id2_def id3_def id4_def)
  have pend: "\<forall>r\<in>set [job_response ''PENDING'' None None]. pending r"
    by (simp add: pending_def job_response_def job_data_def)
  have fin: "ok (job_response ''FAILED'' (Some ''x'') None)"
    "body_json (job_response ''FAILED'' (Some ''x'') None) = Inr (job_data ''FAILED'' (Some ''x'') None)"
    by (simp_all add: job_response_def)
  have st: "status (job_data ''FAILED'' (Some ''x'') None) =
            Some \<lparr>state = ''FAILED'', error_message = Some ''x'',
                  status_json = status_json (the (status (job_data ''FAILED'' (Some ''x'') None)))\<rparr>"
    by (simp add: job_data_def)
  have net: "all_failing_network =
      \<lparr>script = map Responded ([job_response ''PENDING'' None None]
                                  @ [job_response ''FAILED'' (Some ''x'') None])
                @ [Responded (job_response ''FAILED'' (Some ''y'') None),
                   Responded (job_response ''FAILED'' (Some ''z'') None)],
       requests = []\<rparr>"
    by (simp add: all_failing_network_def)
  note inst = lookup_failed_statement[OF tok failing_split unc run,
      where pre = "[job_response ''PENDING'' None None]"
        and fin = "job_response ''FAILED'' (Some ''x'') None"
        and d = "job_data ''FAILED'' (Some ''x'') None"
        and st = "\<lparr>state = ''FAILED'', error_message = Some ''x'',
                  status_json = status_json (the (status (job_data ''FAILED'' (Some ''x'') None)))\<rparr>"
        and x = "''x''"
        and rest = "[Responded (job_response ''FAILED'' (Some ''y'') None),
                     Responded (job_response ''FAILED'' (Some ''z'') None)]"
        and rq = "[]"
        and before = "[]" and s = "\<lparr>type = ''schema'', uuid = id2\<rparr>" and after = "[]"
        and ?r1.0 = "[]" and ?n1.0 = n1 and ?r2.0 = "[]" and ?n2.0 = n1
        and msg = "''SQL failed: y''" and ?n3.0 = n3
        and before' = "[]" and c = "\<lparr>type = ''catalog'', uuid = id4\<rparr>" and after' = "[]"
        and ?q1.0 = "[]" and ?m1.0 = n1 and ?q2.0 = "[]" and ?m2.0 = n3
        and ?q3.0 = "[]" and ?m3.0 = n3 and msg' = "''SQL failed: z''" and ?m4.0 = n4]
  note p1 = inst[THEN conjunct1]
  note p3 = inst[THEN conjunct2, THEN conjunct2, THEN conjunct1]
  note p4 = inst[THEN conjunct2, THEN conjunct2, THEN conjunct2, THEN conjunct1]
  note p5 = inst[THEN conjunct2, THEN conjunct2, THEN conjunct2, THEN conjunct2]
  from p3 pend fin st net
  have r2: "\<forall>k\<in>fst ` set [(id1, name1)]. map_of (matches resp) k = map_of [(id1, name1)] k"
    and r3: "\<forall>u\<in>set [\<lparr>type = ''table'', uuid = id3\<rparr>].
        uuid u \<notin> uuid ` set [\<lparr>type = ''schema'', uuid = id2\<rparr>]
          \<union> uuid ` set [\<lparr>type = ''catalog'', uuid = id4\<rparr>] \<longrightarrow>
        map_of (matches resp) (uuid u) = None"
    by (simp_all add: failing_groups)
  from r2 have h1: "map_of (matches resp) id1 = Some name1"
    by simp
  from r3 ids have h3: "map_of (matches resp) id3 = None"
    by simp
  from p4 t f2 ids have h2: "map_of (matches resp) id2 = None"
    by (simp add: failing_groups cfg)
  from p5 t s2 f3 have h4: "map_of (matches resp) id4 = None"
    by (simp add: failing_groups cfg)
  show ?thesis
    by (intro exI conjI) (rule run, rule p1, rule h1, rule h3, rule h2, rule h4)
qed

end
